theory Spec2Isabelle
  imports Complex_Main
begin

section \<open>Numbers and arrays of the JavaScript source\<close>

text \<open>
  JavaScript numbers are modelled as real numbers; the one non-number value the modelled
  code can produce, \<open>NaN\<close>, is the value \<open>None\<close> of an option type.
  Reading an array at an index that is out of range yields \<open>undefined\<close> in JavaScript;
  \<open>js_index\<close> returns \<open>None\<close> there.
\<close>

definition js_index :: "'a list \<Rightarrow> int \<Rightarrow> 'a option" where
  "js_index xs i = (if 0 \<le> i \<and> i < int (length xs) then Some (xs ! nat i) else None)"

definition clamp01 :: "real \<Rightarrow> real" where
  \<comment> \<open>\<open>Math.max(0, Math.min(1, value))\<close>\<close>
  "clamp01 v = max 0 (min 1 v)"

definition clamp11 :: "real \<Rightarrow> real" where
  \<comment> \<open>\<open>Math.max(-1, Math.min(1, value))\<close>\<close>
  "clamp11 v = max (- 1) (min 1 v)"

text \<open>
  A JavaScript number is an IEEE 754 double, and an arithmetic operation returns the
  double nearest to the exact result, a tie going to the double with the even
  significand. Where the code decides between two numbers that are nearly equal, the
  scan for the closest anchor in \<open>positionToFrequency\<close>, this rounding decides, and it is
  modelled: \<open>binary64 x\<close> is the double that stands for the real number \<open>x\<close>. A double is
  an integer multiple of \<open>2 ^ (e - 52)\<close>, where \<open>e\<close> is the exponent of its binade and at
  least \<open>- 1022\<close> (below that binade the doubles are the subnormal ones, equally spaced).
  The exponent has no upper bound here: overflow to \<open>Infinity\<close> is not modelled, and
  the difference of a finite double and a number between 0 and 1 does not overflow.
  \<open>round_even\<close> rounds to the nearest integer, a tie to the even one.
\<close>

definition round_even :: "real \<Rightarrow> int" where
  "round_even r =
     (if frac r < 1 / 2 then \<lfloor>r\<rfloor>
      else if 1 / 2 < frac r then \<lfloor>r\<rfloor> + 1
      else if even \<lfloor>r\<rfloor> then \<lfloor>r\<rfloor> else \<lfloor>r\<rfloor> + 1)"

definition binary64_exponent :: "real \<Rightarrow> int" where
  "binary64_exponent x = max \<lfloor>log 2 x\<rfloor> (- 1022)"

definition binary64 :: "real \<Rightarrow> real" where
  "binary64 x =
     (if x = 0 then 0
      else sgn x * of_int (round_even (\<bar>x\<bar> / 2 powr of_int (binary64_exponent \<bar>x\<bar> - 52)))
             * 2 powr of_int (binary64_exponent \<bar>x\<bar> - 52))"

section \<open>Synthesizer: the scale mapper (\<open>positionToFrequency\<close>)\<close>

text \<open>
  \<open>octaveSteps\<close> is the array of that name as the machine holds it: the doubles that the
  literals \<open>0.0, 0.2, 0.35, 0.5, 0.65, 0.8, 1.0\<close> denote. The entries of \<open>octaveRanges\<close>
  and \<open>pentatonicIntervals\<close> are doubles as they stand.
\<close>

definition octaveSteps :: "real list" where
  "octaveSteps = map binary64 [0.0, 0.2, 0.35, 0.5, 0.65, 0.8, 1.0]"

definition octaveRanges :: "real list" where
  "octaveRanges = [- 2, - 1, - 0.5, 0, 0.5, 1, 2]"

definition pentatonicIntervals :: "real list" where
  "pentatonicIntervals = [0, 2, 4, 7, 9]"

definition c0Freq :: real where
  "c0Freq = 16.35"

text \<open>
  \<open>closest_step\<close> is the body of the loop
  \<open>for (let i = 1; i < octaveSteps.length; i++) { ... if (distance < minDistance) ... }\<close>
  on the pair \<open>(closestIndex, minDistance)\<close>, with the distance
  \<open>Math.abs(this.params.octave - octaveSteps[i])\<close>: the subtraction is rounded, the
  absolute value is exact.
\<close>

definition closest_step :: "real \<Rightarrow> real list \<Rightarrow> nat \<Rightarrow> nat \<times> real \<Rightarrow> nat \<times> real" where
  "closest_step p steps i st =
     (let distance = \<bar>binary64 (p - steps ! i)\<bar>
      in if distance < snd st then (i, distance) else st)"

definition closest_scan :: "real \<Rightarrow> real list \<Rightarrow> nat \<Rightarrow> nat \<times> real" where
  \<comment> \<open>the loop state when the counter \<open>i\<close> has reached \<open>n\<close>\<close>
  "closest_scan p steps n =
     fold (closest_step p steps) [1..<n] (0, \<bar>binary64 (p - steps ! 0)\<bar>)"

definition closestIndex :: "real \<Rightarrow> nat" where
  "closestIndex p = fst (closest_scan p octaveSteps (length octaveSteps))"

text \<open>
  The semitone count that \<open>positionToFrequency\<close> forms, and the frequency, in exact
  arithmetic. The sums are of multiples of one half of small magnitude, which double
  precision adds without rounding; the products under \<open>Math.floor\<close> and the power
  \<open>Math.pow\<close> are not rounded in this model.
\<close>

definition semitonesFromC0 :: "real \<Rightarrow> real \<Rightarrow> real \<Rightarrow> real option" where
  "semitonesFromC0 octaveParam x y =
     (let octaveOffset = octaveRanges ! closestIndex octaveParam;
          baseOctave = 2 + octaveOffset;
          octave = of_int \<lfloor>y * 2\<rfloor> + baseOctave;
          scaleIndex = \<lfloor>x * real (length pentatonicIntervals)\<rfloor>
      in case js_index pentatonicIntervals scaleIndex of
           None \<Rightarrow> None
         | Some interval \<Rightarrow> Some (interval + octave * 12))"

definition positionToFrequency :: "real \<Rightarrow> real \<Rightarrow> real \<Rightarrow> real option" where
  \<comment> \<open>the first argument is the field \<open>this.params.octave\<close> that the method reads\<close>
  "positionToFrequency octaveParam x y =
     (case semitonesFromC0 octaveParam x y of
        None \<Rightarrow> None
      | Some s \<Rightarrow> Some (c0Freq * 2 powr (s / 12)))"

text \<open>
  Helper values for stating the range of \<open>positionToFrequency\<close>: the semitone count
  reached from pitch-class index \<open>i\<close>, octave band \<open>b\<close> and anchor index \<open>k\<close>, the
  grid of all \<open>5 * 2 * 7\<close> such combinations, and the grid's values without repetition.
\<close>

definition semitone_of :: "nat \<Rightarrow> nat \<Rightarrow> nat \<Rightarrow> real" where
  "semitone_of i b k = pentatonicIntervals ! i + (real b + 2 + octaveRanges ! k) * 12"

definition semitone_grid :: "real list" where
  "semitone_grid =
     map (\<lambda>(i, b, k). semitone_of i b k) (List.product [0..<5] (List.product [0..<2] [0..<7]))"

definition semitone_values :: "real list" where
  "semitone_values =
     [0, 2, 4, 7, 9, 12, 14, 16, 18, 19, 20, 21, 22, 24, 25, 26, 27, 28, 30, 31,
      32, 33, 34, 36, 37, 38, 39, 40, 42, 43, 44, 45, 46, 48, 49, 50, 51, 52,
      55, 57, 60, 62, 64, 67, 69]"

definition frequency_of :: "real \<Rightarrow> real" where
  "frequency_of s = c0Freq * 2 powr (s / 12)"

section \<open>Synthesizer: voices, parameters and the effect chain\<close>

text \<open>
  A voice object as \<open>createVoice\<close> returns it, without its audio nodes. Every slot of
  \<open>this.voices\<close> holds an object of its own, so the pool is modelled as the list of the
  objects' fields. What \<open>stopVoice\<close> does to the audio graph (the release ramp and the
  delayed oscillator stop) is recorded as a trace: the field \<open>released\<close> of the
  synthesizer lists, in order, the voices whose release has been triggered.
\<close>

record voice =
  playing :: bool
  frequency :: "real option"
  vx :: real
  vy :: real
  voiceGain :: real
  startTime :: real

text \<open>
  The settings of the shared effect nodes. \<open>distortionCurve\<close> is the \<open>amount\<close> that
  \<open>makeDistortionCurve\<close> was last called with; a gain or delay-time field is the value
  last assigned, or last given to \<open>setTargetAtTime\<close> as target.
\<close>

record effect_chain =
  distortionCurve :: real
  distortionWet :: real
  distortionDry :: real
  delayTime :: real
  delayGain :: real
  delayFeedback :: real
  chorusGain :: real
  chorusDepth :: real
  reverbGain :: real

text \<open>
  \<open>effects\<close> is \<open>None\<close> while the node fields (\<open>this.distortion\<close>, \<open>this.delay\<close>, ...)
  are still \<open>null\<close>, that is until \<open>setupAudioChain\<close> has run. \<open>params\<close> is the
  object \<open>this.params\<close>, a dictionary from property names to numbers.
\<close>

record synthesizer =
  isInitialized :: bool
  voices :: "voice list"
  maxVoices :: int
  bufferSize :: "real option"
  params :: "string \<rightharpoonup> real"
  effects :: "effect_chain option"
  released :: "voice list"

definition Synthesizer_new :: "int option \<Rightarrow> real option \<Rightarrow> synthesizer" where
  \<comment> \<open>the constructor; the arguments are \<open>settings.maxVoices\<close> and \<open>settings.bufferSize\<close>\<close>
  "Synthesizer_new settingsMaxVoices settingsBufferSize =
     \<lparr> isInitialized = False,
       voices = [],
       maxVoices = (case settingsMaxVoices of
                      None \<Rightarrow> 5
                    | Some m \<Rightarrow> if m = 0 then 5 else m),
       bufferSize = settingsBufferSize,
       params = [''grime'' \<mapsto> 0.3, ''flow'' \<mapsto> 0.2, ''shimmer'' \<mapsto> 0.15,
                 ''depth'' \<mapsto> 0.25, ''octave'' \<mapsto> 0.45],
       effects = None,
       released = [] \<rparr>"

definition setupAudioChain :: "synthesizer \<Rightarrow> effect_chain" where
  "setupAudioChain s =
     \<lparr> distortionCurve = 50,
       distortionWet = 0.3,
       distortionDry = 0.7,
       delayTime = (case bufferSize s of
                      None \<Rightarrow> 0.2
                    | Some b \<Rightarrow> if b = 0 then 0.2 else b / 1000),
       delayGain = 0.3,
       delayFeedback = 0.4,
       chorusGain = 0.5,
       chorusDepth = 0.005,
       reverbGain = 0.2 \<rparr>"

definition initialize :: "bool \<Rightarrow> synthesizer \<Rightarrow> synthesizer" where
  \<comment> \<open>\<open>ok\<close> tells whether creating the audio context and the chain succeeded\<close>
  "initialize ok s =
     (if isInitialized s then s
      else if ok then s\<lparr>effects := Some (setupAudioChain s), isInitialized := True\<rparr>
      else s)"

text \<open>\<open>Array.prototype.findIndex\<close>; the result \<open>None\<close> stands for \<open>-1\<close>.\<close>

fun findIndex :: "('a \<Rightarrow> bool) \<Rightarrow> 'a list \<Rightarrow> nat option" where
  "findIndex P [] = None"
| "findIndex P (x # xs) = (if P x then Some 0 else map_option Suc (findIndex P xs))"

definition array_set :: "'a list \<Rightarrow> nat \<Rightarrow> 'a \<Rightarrow> 'a list" where
  \<comment> \<open>\<open>xs[i] = v\<close> for \<open>i \<le> xs.length\<close>: assigning at \<open>xs.length\<close> extends the array by one\<close>
  "array_set xs i v = (if i < length xs then xs[i := v] else xs @ [v])"

definition slice_from :: "int \<Rightarrow> nat \<Rightarrow> nat" where
  \<comment> \<open>the index at which \<open>xs.slice(start)\<close> begins in an array of length \<open>n\<close>\<close>
  "slice_from start n = (if start < 0 then nat (max (int n + start) 0) else min (nat start) n)"

definition stopVoice :: "nat \<Rightarrow> synthesizer \<Rightarrow> synthesizer" where
  \<comment> \<open>\<open>stopVoice(this.voices[i])\<close>; a slot beyond the array holds \<open>undefined\<close>\<close>
  "stopVoice i s =
     (if i < length (voices s) \<and> playing (voices s ! i)
      then s\<lparr>voices := (voices s)[i := (voices s ! i)\<lparr>playing := False\<rparr>],
             released := released s @ [voices s ! i]\<rparr>
      else s)"

definition createVoice :: "real \<Rightarrow> real option \<Rightarrow> real \<Rightarrow> real \<Rightarrow> real \<Rightarrow> voice" where
  "createVoice now freq intensity x y =
     \<lparr> playing = True, frequency = freq, vx = x, vy = y,
       voiceGain = intensity * 0.8, startTime = now \<rparr>"

definition currentFrequency :: "synthesizer \<Rightarrow> real \<Rightarrow> real \<Rightarrow> real option" where
  \<comment> \<open>\<open>this.positionToFrequency(x, y)\<close>. Were \<open>params.octave\<close> missing, every distance
      would be \<open>NaN\<close> and the scan would keep index 0, as it does for the value 0.\<close>
  "currentFrequency s x y =
     (case params s ''octave'' of
        Some p \<Rightarrow> positionToFrequency p x y
      | None \<Rightarrow> positionToFrequency 0 x y)"

definition startVoice :: "real \<Rightarrow> real \<Rightarrow> real \<Rightarrow> real \<Rightarrow> synthesizer \<Rightarrow> voice option \<times> synthesizer" where
  \<comment> \<open>the first argument is \<open>audioContext.currentTime\<close>; the result \<open>None\<close> is \<open>null\<close>\<close>
  "startVoice now x y intensity s =
     (if \<not> isInitialized s then (None, s)
      else
        let (voiceIndex, s1) =
              (case findIndex (\<lambda>v. \<not> playing v) (voices s) of
                 Some i \<Rightarrow> (i, s)
               | None \<Rightarrow>
                   if int (length (voices s)) < maxVoices s then (length (voices s), s)
                   else (0, stopVoice 0 s));
            v = createVoice now (currentFrequency s x y) intensity x y
        in (Some v, s1\<lparr>voices := array_set (voices s1) voiceIndex v\<rparr>))"

definition setParameter :: "string \<Rightarrow> real \<Rightarrow> synthesizer \<Rightarrow> synthesizer" where
  "setParameter param v s =
     (let s1 = s\<lparr>params := (params s)(param \<mapsto> clamp01 v)\<rparr>
      in if param = ''grime'' then
           (case effects s1 of
              None \<Rightarrow> s1
            | Some e \<Rightarrow> s1\<lparr>effects := Some (e\<lparr>distortionCurve := 20 + v * 200,
                                              distortionWet := v,
                                              distortionDry := 1 - v\<rparr>)\<rparr>)
         else if param = ''flow'' then
           (case effects s1 of
              None \<Rightarrow> s1
            | Some e \<Rightarrow> s1\<lparr>effects := Some (e\<lparr>delayTime := 0.05 + v * 0.45,
                                              delayGain := v * 0.8,
                                              delayFeedback := v * 0.85\<rparr>)\<rparr>)
         else if param = ''shimmer'' then
           (case effects s1 of
              None \<Rightarrow> s1
            | Some e \<Rightarrow> s1\<lparr>effects := Some (e\<lparr>chorusGain := v * 0.8,
                                              chorusDepth := v * 0.01\<rparr>)\<rparr>)
         else if param = ''depth'' then
           (case effects s1 of
              None \<Rightarrow> s1
            | Some e \<Rightarrow> s1\<lparr>effects := Some (e\<lparr>reverbGain := v * 0.5\<rparr>)\<rparr>)
         else s1)"

definition getParameter :: "synthesizer \<Rightarrow> string \<Rightarrow> real option" where
  \<comment> \<open>\<open>None\<close> is \<open>undefined\<close>\<close>
  "getParameter s param = params s param"

definition setComplexity :: "real \<Rightarrow> synthesizer \<Rightarrow> synthesizer" where
  "setComplexity complexity s =
     (let oldMaxVoices = maxVoices s;
          s1 = s\<lparr>maxVoices := \<lceil>5 * complexity\<rceil>\<rparr>
      in if maxVoices s1 < oldMaxVoices
         then fold stopVoice [slice_from (maxVoices s1) (length (voices s1))..<length (voices s1)] s1
         else s1)"

definition activeVoiceCount :: "synthesizer \<Rightarrow> nat" where
  \<comment> \<open>the number of pool slots whose voice is playing\<close>
  "activeVoiceCount s = length (filter playing (voices s))"

text \<open>
  Two concrete synthesizer states: an initialized synthesizer with default settings on
  which five voices were started, and the same after \<open>setComplexity(0.4)\<close>.
\<close>

definition full_pool :: synthesizer where
  "full_pool =
     fold (\<lambda>t s. snd (startVoice t 0 0 1 s)) [1, 2, 3, 4, 5]
          (initialize True (Synthesizer_new None None))"

definition shrunk_pool :: synthesizer where
  "shrunk_pool = setComplexity (2 / 5) full_pool"

section \<open>Loop controller: state and operations\<close>

text \<open>
  An \<open>AudioBuffer\<close> is the list of its channels, each the list of its samples.
  \<open>js_rem\<close> is the operator \<open>%\<close> on numbers (the remainder takes the sign of the
  dividend); \<open>js_irem\<close> is the same operator on integral values. With a divisor 0
  JavaScript yields \<open>NaN\<close>; the mixing never gets there, since \<open>createBuffer\<close> throws
  first when the loop has no sample.
\<close>

type_synonym audio_buffer = "real list list"

datatype error = NotSupportedError | TypeError | EncodingError

definition js_trunc :: "real \<Rightarrow> int" where
  "js_trunc a = (if 0 \<le> a then \<lfloor>a\<rfloor> else \<lceil>a\<rceil>)"

definition js_rem :: "real \<Rightarrow> real \<Rightarrow> real" where
  "js_rem a b = a - b * of_int (js_trunc (a / b))"

definition js_irem :: "int \<Rightarrow> int \<Rightarrow> int" where
  "js_irem a b = sgn a * (\<bar>a\<bar> mod \<bar>b\<bar>)"

definition createBuffer :: "nat \<Rightarrow> int \<Rightarrow> error + audio_buffer" where
  \<comment> \<open>\<open>audioContext.createBuffer(numberOfChannels, length, sampleRate)\<close>: zero-filled;
      it throws when the channel count or the length is not positive\<close>
  "createBuffer numberOfChannels len =
     (if numberOfChannels = 0 \<or> len \<le> 0 then Inl NotSupportedError
      else Inr (replicate numberOfChannels (replicate (nat len) 0)))"

definition copy_original :: "real list \<Rightarrow> int \<Rightarrow> real list \<Rightarrow> real list" where
  \<comment> \<open>\<open>for (let i = 0; i < Math.min(originalData.length, targetSamples); i++)
        mixedData[i] = originalData[i]\<close>\<close>
  "copy_original originalData targetSamples mixedData =
     fold (\<lambda>i md. md[i := originalData ! i])
          [0..<min (length originalData) (nat targetSamples)] mixedData"

definition overdub_step :: "int option \<Rightarrow> int \<Rightarrow> real list \<Rightarrow> nat \<Rightarrow> real list \<Rightarrow> real list" where
  \<comment> \<open>the body of the layering loop. A typed array ignores a write at an index that is
      negative or \<open>NaN\<close> (the start sample \<open>None\<close>), and the value read there is
      \<open>undefined\<close>.\<close>
  "overdub_step overdubStartSample targetSamples overdubData i mixedData =
     (case overdubStartSample of
        None \<Rightarrow> mixedData
      | Some start \<Rightarrow>
          let targetIndex = js_irem (start + int i) targetSamples;
              overdubSample = overdubData ! i * 0.6
          in if 0 \<le> targetIndex \<and> targetIndex < int (length mixedData)
             then mixedData[nat targetIndex :=
                            clamp11 (mixedData ! nat targetIndex + overdubSample)]
             else mixedData)"

definition layer_overdub :: "int option \<Rightarrow> int \<Rightarrow> real list \<Rightarrow> real list \<Rightarrow> real list" where
  \<comment> \<open>\<open>for (let i = 0; i < overdubData.length; i++) { ... }\<close>\<close>
  "layer_overdub overdubStartSample targetSamples overdubData mixedData =
     fold (overdub_step overdubStartSample targetSamples overdubData)
          [0..<length overdubData] mixedData"

definition mix_channel ::
  "int option \<Rightarrow> int \<Rightarrow> audio_buffer \<Rightarrow> audio_buffer \<Rightarrow> nat \<Rightarrow> real list \<Rightarrow> real list" where
  \<comment> \<open>one round of the loop over the channels of the mixed buffer\<close>
  "mix_channel overdubStartSample targetSamples originalBuffer overdubBuffer channel mixedData =
     (let md1 = (if channel < length originalBuffer
                 then copy_original (originalBuffer ! channel) targetSamples mixedData
                 else mixedData)
      in if channel < length overdubBuffer
         then layer_overdub overdubStartSample targetSamples (overdubBuffer ! channel) md1
         else md1)"

definition overdubStartSample :: "real \<Rightarrow> real \<Rightarrow> real option \<Rightarrow> real \<Rightarrow> int option" where
  \<comment> \<open>\<open>Math.floor(((overdubStartTime - playStartTime) % loopDuration) * sampleRate)\<close>;
      \<open>overdubStartTime\<close> is \<open>undefined\<close> (\<open>None\<close>) before the first overdub, and the
      result is then \<open>NaN\<close>\<close>
  "overdubStartSample rate duration overdubStart playStart =
     (case overdubStart of
        None \<Rightarrow> None
      | Some t \<Rightarrow> Some \<lfloor>js_rem (t - playStart) duration * rate\<rfloor>)"

definition mixOverdub ::
  "real \<Rightarrow> real \<Rightarrow> real option \<Rightarrow> real \<Rightarrow> audio_buffer \<Rightarrow> audio_buffer \<Rightarrow> error + audio_buffer" where
  \<comment> \<open>the mixing part of \<open>processOverdubRecording\<close>, from \<open>targetSamples\<close> to the end of
      the loop over the channels\<close>
  "mixOverdub rate duration overdubStart playStart originalBuffer overdubBuffer =
     (let targetSamples = \<lfloor>duration * rate\<rfloor>
      in case createBuffer (max (length originalBuffer) (length overdubBuffer)) targetSamples of
           Inl e \<Rightarrow> Inl e
         | Inr mixedBuffer \<Rightarrow>
             let start = overdubStartSample rate duration overdubStart playStart
             in Inr (map (\<lambda>channel. mix_channel start targetSamples originalBuffer overdubBuffer
                                       channel (mixedBuffer ! channel))
                         [0..<length mixedBuffer]))"

text \<open>
  The \<open>MediaRecorder\<close> of the controller: its \<open>state\<close> and which handler its \<open>onstop\<close>
  is (\<open>processRecording\<close> for a new take, \<open>processOverdubRecording\<close> for an overdub).
\<close>

datatype recorder_state = Inactive | Recording

datatype take_kind = NewTake | OverdubTake

record media_recorder =
  recState :: recorder_state
  onstop :: take_kind

text \<open>
  The fields of \<open>LoopController\<close>. \<open>playbackSource\<close> is \<open>None\<close> for \<open>null\<close> and
  otherwise holds the offset the source was started at; \<open>recordedChunks\<close> lists the sizes
  of the blobs collected; \<open>recordDestination\<close> and \<open>overdubDestination\<close> tell whether the
  field holds a node. \<open>pendingStops\<close> is not a field of the class: it is the browser's
  queue of \<open>stop\<close> events of recorders on which \<open>stop()\<close> was called, each with the handler
  that will run when the event is delivered.
\<close>

record loop_controller =
  loopInitialized :: bool
  sampleRate :: real
  isRecording :: bool
  isPlaying :: bool
  recordedBuffer :: "audio_buffer option"
  loopDuration :: real
  recordStartTime :: real
  playStartTime :: real
  overdubStartTime :: "real option"
  playbackSource :: "real option"
  mediaRecorder :: "media_recorder option"
  recordedChunks :: "nat list"
  volume :: real
  maxLoopDuration :: real
  recordDestination :: bool
  overdubDestination :: bool
  pendingStops :: "take_kind list"

definition LoopController_new :: "real \<Rightarrow> loop_controller" where
  \<comment> \<open>the constructor; the argument is the sample rate of the synthesizer's audio context\<close>
  "LoopController_new rate =
     \<lparr> loopInitialized = False,
       sampleRate = rate,
       isRecording = False,
       isPlaying = False,
       recordedBuffer = None,
       loopDuration = 0,
       recordStartTime = 0,
       playStartTime = 0,
       overdubStartTime = None,
       playbackSource = None,
       mediaRecorder = None,
       recordedChunks = [],
       volume = 0.8,
       maxLoopDuration = 30,
       recordDestination = False,
       overdubDestination = False,
       pendingStops = [] \<rparr>"

definition loop_initialize :: "bool \<Rightarrow> bool \<Rightarrow> loop_controller \<Rightarrow> loop_controller" where
  \<comment> \<open>\<open>initialize()\<close>; the arguments are \<open>this.synthesizer.isInitialized\<close> and whether
      \<open>setupAudioChain\<close> succeeded\<close>
  "loop_initialize synthReady ok s =
     (if loopInitialized s \<or> \<not> synthReady then s
      else if ok then s\<lparr>loopInitialized := True\<rparr>
      else s)"

definition recorder_stop :: "loop_controller \<Rightarrow> loop_controller" where
  \<comment> \<open>\<open>if (this.mediaRecorder && this.mediaRecorder.state === 'recording')
        this.mediaRecorder.stop()\<close>\<close>
  "recorder_stop s =
     (case mediaRecorder s of
        None \<Rightarrow> s
      | Some r \<Rightarrow>
          if recState r = Recording
          then s\<lparr>mediaRecorder := Some (r\<lparr>recState := Inactive\<rparr>),
                 pendingStops := pendingStops s @ [onstop r]\<rparr>
          else s)"

definition startRecording :: "real \<Rightarrow> bool \<Rightarrow> loop_controller \<Rightarrow> bool \<times> loop_controller" where
  \<comment> \<open>the arguments are \<open>audioContext.currentTime\<close> and whether \<open>new MediaRecorder\<close>
      succeeded; the two branches are \<open>startOverdubRecording\<close> and \<open>startNewRecording\<close>\<close>
  "startRecording now ok s =
     (if \<not> loopInitialized s then (False, s)
      else
        let isOverdub = isPlaying s;
            s1 = (if isOverdub
                  then s\<lparr>overdubDestination := True, recordedChunks := []\<rparr>
                  else s\<lparr>recordDestination := True, recordedChunks := []\<rparr>)
        in if \<not> ok then (False, s1)
           else
             let s2 = (if isOverdub
                       then s1\<lparr>mediaRecorder := Some \<lparr>recState = Recording, onstop = OverdubTake\<rparr>,
                               overdubStartTime := Some now\<rparr>
                       else s1\<lparr>mediaRecorder := Some \<lparr>recState = Recording, onstop = NewTake\<rparr>\<rparr>)
             in (True, s2\<lparr>isRecording := True, recordStartTime := now\<rparr>))"

definition stopRecording :: "real \<Rightarrow> loop_controller \<Rightarrow> bool \<times> loop_controller" where
  "stopRecording now s =
     (if \<not> isRecording s then (False, s)
      else
        let s1 = recorder_stop (s\<lparr>isRecording := False\<rparr>)
        in if recordedBuffer s1 = None
           then
             let d0 = now - recordStartTime s1;
                 d1 = (if d0 < 0.1 then 0.1 else d0);
                 d2 = (if d1 > maxLoopDuration s1 then maxLoopDuration s1 else d1)
             in (True, s1\<lparr>loopDuration := d2\<rparr>)
           else (True, s1))"

definition startPlaybackAtPosition :: "real \<Rightarrow> real \<Rightarrow> loop_controller \<Rightarrow> bool \<times> loop_controller" where
  \<comment> \<open>\<open>playbackSource.start(0, startOffset)\<close> throws on a negative offset, after the
      source has been stored in the field\<close>
  "startPlaybackAtPosition position now s =
     (if recordedBuffer s = None \<or> isPlaying s then (False, s)
      else
        let startOffset = position * loopDuration s
        in if startOffset < 0 then (False, s\<lparr>playbackSource := Some startOffset\<rparr>)
           else (True, s\<lparr>playbackSource := Some startOffset,
                          isPlaying := True,
                          playStartTime := now - startOffset\<rparr>))"

definition startPlayback :: "real \<Rightarrow> loop_controller \<Rightarrow> bool \<times> loop_controller" where
  "startPlayback now s = startPlaybackAtPosition 0 now s"

definition stopPlayback :: "loop_controller \<Rightarrow> bool \<times> loop_controller" where
  "stopPlayback s =
     (if \<not> isPlaying s \<or> playbackSource s = None then (False, s)
      else (True, s\<lparr>playbackSource := None, isPlaying := False\<rparr>))"

definition togglePlayback :: "real \<Rightarrow> loop_controller \<Rightarrow> bool \<times> loop_controller" where
  "togglePlayback now s =
     (if isPlaying s then stopPlayback s
      else if recordedBuffer s \<noteq> None then startPlayback now s
      else (False, s))"

definition setVolume :: "real \<Rightarrow> loop_controller \<Rightarrow> loop_controller" where
  "setVolume v s = s\<lparr>volume := clamp01 v\<rparr>"

definition getPlaybackPosition :: "real \<Rightarrow> loop_controller \<Rightarrow> real" where
  "getPlaybackPosition now s =
     (if \<not> isPlaying s \<or> loopDuration s = 0 then 0
      else js_rem (now - playStartTime s) (loopDuration s) / loopDuration s)"

definition dataAvailable :: "nat \<Rightarrow> loop_controller \<Rightarrow> loop_controller" where
  \<comment> \<open>the \<open>ondataavailable\<close> handler, for a blob of the given size\<close>
  "dataAvailable blobSize s =
     (if blobSize > 0 then s\<lparr>recordedChunks := recordedChunks s @ [blobSize]\<rparr> else s)"

definition processRecording :: "audio_buffer option \<Rightarrow> real \<Rightarrow> loop_controller \<Rightarrow> loop_controller" where
  \<comment> \<open>the first argument is the result of \<open>decodeAudioData\<close>, \<open>None\<close> when it throws\<close>
  "processRecording decoded now s =
     (if recordedChunks s = [] then s
      else case decoded of
             None \<Rightarrow> s
           | Some buf \<Rightarrow> snd (startPlayback now (s\<lparr>recordedBuffer := Some buf\<rparr>)))"

definition processOverdubRecording ::
  "audio_buffer option \<Rightarrow> real \<Rightarrow> real \<Rightarrow> loop_controller \<Rightarrow> loop_controller" where
  \<comment> \<open>\<open>now1\<close> is the clock when the handler starts, \<open>now2\<close> the clock after decoding.
      Every exception is caught at the end of the method: the state then stays as it is
      at the throw.\<close>
  "processOverdubRecording decoded now1 now2 s =
     (if recordedChunks s = [] then s
      else
        let currentPosition = getPlaybackPosition now1 s;
            s1 = snd (stopPlayback s)
        in case decoded of
             None \<Rightarrow> s1
           | Some overdubBuffer \<Rightarrow>
               (case recordedBuffer s1 of
                  None \<Rightarrow> s1
                | Some originalBuffer \<Rightarrow>
                    (case mixOverdub (sampleRate s1) (loopDuration s1) (overdubStartTime s1)
                            (playStartTime s1) originalBuffer overdubBuffer of
                       Inl e \<Rightarrow> s1
                     | Inr mixedBuffer \<Rightarrow>
                         snd (startPlaybackAtPosition currentPosition now2
                                (s1\<lparr>recordedBuffer := Some mixedBuffer\<rparr>)))))"

definition deliverStop ::
  "audio_buffer option \<Rightarrow> real \<Rightarrow> real \<Rightarrow> loop_controller \<Rightarrow> loop_controller" where
  \<comment> \<open>the browser delivers the oldest pending \<open>stop\<close> event to its handler\<close>
  "deliverStop decoded now1 now2 s =
     (case pendingStops s of
        [] \<Rightarrow> s
      | k # rest \<Rightarrow>
          (case k of
             NewTake \<Rightarrow> processRecording decoded now2 (s\<lparr>pendingStops := rest\<rparr>)
           | OverdubTake \<Rightarrow> processOverdubRecording decoded now1 now2 (s\<lparr>pendingStops := rest\<rparr>)))"

definition clear :: "real \<Rightarrow> loop_controller \<Rightarrow> bool \<times> loop_controller" where
  "clear now s =
     (let s1 = (if isRecording s then snd (stopRecording now s) else s);
          s2 = (if isPlaying s1 then snd (stopPlayback s1) else s1);
          s3 = s2\<lparr>recordedBuffer := None, loopDuration := 0, recordedChunks := []\<rparr>;
          s4 = (case mediaRecorder s3 of
                  None \<Rightarrow> s3
                | Some r \<Rightarrow> (recorder_stop s3)\<lparr>mediaRecorder := None\<rparr>);
          s5 = (if recordDestination s4 then s4\<lparr>recordDestination := False\<rparr> else s4);
          s6 = (if overdubDestination s5 then s5\<lparr>overdubDestination := False\<rparr> else s5)
      in (True, s6))"

record loop_state =
  st_isRecording :: bool
  st_isPlaying :: bool
  st_hasLoop :: bool
  st_duration :: real
  st_volume :: real

definition getState :: "loop_controller \<Rightarrow> loop_state" where
  "getState s =
     \<lparr> st_isRecording = isRecording s,
       st_isPlaying = isPlaying s,
       st_hasLoop = (recordedBuffer s \<noteq> None),
       st_duration = loopDuration s,
       st_volume = volume s \<rparr>"

text \<open>
  What can happen to a loop controller: the calls of its public methods, with the clock
  reading and the outcome of the browser calls they make, and the recorder's events.
\<close>

datatype loop_op =
    Initialize bool bool
  | StartRecording real bool
  | StopRecording real
  | TogglePlayback real
  | SetVolume real
  | Clear real
  | DataAvailable nat
  | DeliverStop "audio_buffer option" real real

fun loop_apply :: "loop_op \<Rightarrow> loop_controller \<Rightarrow> loop_controller" where
  "loop_apply (Initialize synthReady ok) s = loop_initialize synthReady ok s"
| "loop_apply (StartRecording now ok) s = snd (startRecording now ok s)"
| "loop_apply (StopRecording now) s = snd (stopRecording now s)"
| "loop_apply (TogglePlayback now) s = snd (togglePlayback now s)"
| "loop_apply (SetVolume v) s = setVolume v s"
| "loop_apply (Clear now) s = snd (clear now s)"
| "loop_apply (DataAvailable blobSize) s = dataAvailable blobSize s"
| "loop_apply (DeliverStop decoded now1 now2) s = deliverStop decoded now1 now2 s"

definition loop_run :: "loop_op list \<Rightarrow> loop_controller \<Rightarrow> loop_controller" where
  "loop_run ops s = fold loop_apply ops s"

definition overdub_in_progress :: "loop_controller \<Rightarrow> bool" where
  \<comment> \<open>a recording is running on a recorder that \<open>startOverdubRecording\<close> created\<close>
  "overdub_in_progress s =
     (isRecording s \<and>
      (case mediaRecorder s of
         None \<Rightarrow> False
       | Some r \<Rightarrow> recState r = Recording \<and> onstop r = OverdubTake))"

section \<open>The overdub mixing contract, in the words of the specification\<close>

text \<open>
  The specification's algorithm, for comparison with \<open>mixOverdub\<close>: the phase is the time
  between the start of playback and the start of the overdub, modulo the loop duration;
  the result has \<open>max\<close> channels of \<open>targetSamples\<close> samples; the existing loop is copied
  into it; then the overdub samples are layered one after the other, sample \<open>i\<close> at index
  \<open>(overdubStartSample + i) mod targetSamples\<close>, attenuated by 0.6 and clipped. The sample
  counts are taken with \<open>floor\<close>, as the code does.
\<close>

definition spec_mod :: "real \<Rightarrow> real \<Rightarrow> real" where
  "spec_mod a b = a - b * of_int \<lfloor>a / b\<rfloor>"

definition spec_copy :: "nat \<Rightarrow> real list \<Rightarrow> real list" where
  "spec_copy n existing = take n existing @ replicate (n - length existing) 0"

fun spec_layer :: "nat \<Rightarrow> nat \<Rightarrow> nat \<Rightarrow> real list \<Rightarrow> real list \<Rightarrow> real list" where
  "spec_layer start n i [] result = result"
| "spec_layer start n i (x # xs) result =
     spec_layer start n (Suc i) xs
       (result[(start + i) mod n := clamp11 (result ! ((start + i) mod n) + 0.6 * x)])"

definition spec_channel :: "audio_buffer \<Rightarrow> nat \<Rightarrow> real list" where
  \<comment> \<open>a channel of a buffer, empty when the buffer has no such channel\<close>
  "spec_channel buf ch = (if ch < length buf then buf ! ch else [])"

definition spec_mix :: "real \<Rightarrow> real \<Rightarrow> real \<Rightarrow> real \<Rightarrow> audio_buffer \<Rightarrow> audio_buffer \<Rightarrow> audio_buffer" where
  "spec_mix rate duration overdubStart playStart existing overdub =
     (let targetSamples = nat \<lfloor>duration * rate\<rfloor>;
          overdubStartInLoop = spec_mod (overdubStart - playStart) duration;
          start = nat \<lfloor>overdubStartInLoop * rate\<rfloor>
      in map (\<lambda>ch. spec_layer start targetSamples 0 (spec_channel overdub ch)
                     (spec_copy targetSamples (spec_channel existing ch)))
             [0..<max (length existing) (length overdub)])"

section \<open>Properties of the rounding to double precision\<close>

lemma round_even_bounds: "\<lfloor>r\<rfloor> \<le> round_even r \<and> round_even r \<le> \<lfloor>r\<rfloor> + 1"
  by (simp add: round_even_def)

lemma round_even_of_int: "round_even (of_int m) = m"
  by (simp add: round_even_def)

lemma round_even_mono: "r \<le> s \<Longrightarrow> round_even r \<le> round_even s"
proof -
  assume rs: "r \<le> s"
  then have fl: "\<lfloor>r\<rfloor> \<le> \<lfloor>s\<rfloor>" by (rule floor_mono)
  show ?thesis
  proof (cases "\<lfloor>r\<rfloor> = \<lfloor>s\<rfloor>")
    case False
    with fl have "\<lfloor>r\<rfloor> + 1 \<le> \<lfloor>s\<rfloor>" by simp
    then show ?thesis
      using round_even_bounds [of r] round_even_bounds [of s] by linarith
  next
    case True
    have "frac r \<le> frac s" using rs True by (simp add: frac_def)
    then show ?thesis using True by (auto simp: round_even_def)
  qed
qed

lemma round_even_le: "r \<le> of_int N \<Longrightarrow> round_even r \<le> N"
  using round_even_mono [of r "of_int N"] by (simp add: round_even_of_int)

lemma round_even_ge: "of_int N \<le> r \<Longrightarrow> N \<le> round_even r"
  using round_even_mono [of "of_int N" r] by (simp add: round_even_of_int)

lemma pow2_floor_log:
  assumes "0 < x"
  shows "2 powr of_int \<lfloor>log 2 x\<rfloor> \<le> x" and "x < 2 powr of_int (\<lfloor>log 2 x\<rfloor> + 1)"
proof -
  have a: "of_int \<lfloor>log 2 x\<rfloor> \<le> log 2 x" by (rule of_int_floor_le)
  have "(1::real) < 2" by simp
  from le_log_iff [OF this assms, of "of_int \<lfloor>log 2 x\<rfloor>"] a
  show "2 powr of_int \<lfloor>log 2 x\<rfloor> \<le> x" by blast
  have b: "log 2 x < of_int (\<lfloor>log 2 x\<rfloor> + 1)" by linarith
  have "(1::real) < 2" by simp
  from log_less_iff [OF this assms, of "of_int (\<lfloor>log 2 x\<rfloor> + 1)"] b
  show "x < 2 powr of_int (\<lfloor>log 2 x\<rfloor> + 1)" by blast
qed

lemma floor_log_eqI:
  assumes "2 powr of_int e \<le> x" and "x < 2 powr of_int (e + 1)"
  shows "\<lfloor>log 2 x\<rfloor> = e"
proof -
  have x: "0 < x" using assms(1) powr_gt_zero [of 2 "of_int e"] by linarith
  have one: "(1::real) < 2" by simp
  have "of_int e \<le> log 2 x"
    using le_log_iff [OF one x, of "of_int e"] assms(1) by blast
  moreover have "log 2 x < of_int (e + 1)"
    using log_less_iff [OF one x, of "of_int (e + 1)"] assms(2) by blast
  ultimately show ?thesis by (simp add: floor_eq_iff)
qed

text \<open>binary64 on positive reals, with its exponent and unit in the last place named\<close>

lemma binary64_pos:
  "0 < x \<Longrightarrow>
   binary64 x = of_int (round_even (x / 2 powr of_int (binary64_exponent x - 52)))
                  * 2 powr of_int (binary64_exponent x - 52)"
  by (simp add: binary64_def)

lemma binary64_zero: "binary64 0 = 0"
  by (simp add: binary64_def)

lemma binary64_exponent_mono: "0 < x \<Longrightarrow> x \<le> y \<Longrightarrow> binary64_exponent x \<le> binary64_exponent y"
proof -
  assume "0 < x" "x \<le> y"
  then have "log 2 x \<le> log 2 y" by simp
  then have "\<lfloor>log 2 x\<rfloor> \<le> \<lfloor>log 2 y\<rfloor>" by (rule floor_mono)
  then show ?thesis by (simp add: binary64_exponent_def)
qed

lemma binary64_below_binade:
  assumes "0 < x"
  shows "binary64 x \<le> 2 powr of_int (binary64_exponent x + 1)"
proof -
  define e where "e = binary64_exponent x"
  define u :: real where "u = 2 powr of_int (e - 52)"
  have u: "0 < u" by (simp add: u_def)
  have "\<lfloor>log 2 x\<rfloor> \<le> e" by (simp add: e_def binary64_exponent_def)
  then have "of_int (\<lfloor>log 2 x\<rfloor> + 1) \<le> (of_int (e + 1) :: real)" by simp
  then have "2 powr of_int (\<lfloor>log 2 x\<rfloor> + 1) \<le> (2::real) powr of_int (e + 1)"
    by simp
  with pow2_floor_log(2) [OF assms] have "x \<le> 2 powr of_int (e + 1)" by linarith
  then have "x / u \<le> 2 powr of_int (e + 1) / u" using u by (simp add: divide_right_mono)
  also have "2 powr of_int (e + 1) / u = 2 powr 53"
    by (simp add: u_def powr_diff [symmetric])
  also have "(2::real) powr 53 = of_int (2 ^ 53)" by simp
  finally have "round_even (x / u) \<le> 2 ^ 53" by (rule round_even_le)
  then have "of_int (round_even (x / u)) \<le> (of_int (2 ^ 53) :: real)" by (simp only: of_int_le_iff)
  then have "of_int (round_even (x / u)) * u \<le> of_int (2 ^ 53) * u"
    using u by (simp only: mult_le_cancel_right_pos)
  also have "of_int (2 ^ 53) * u = 2 powr 53 * u" by simp
  also have "\<dots> = 2 powr of_int (e + 1)"
    unfolding u_def by (simp only: powr_add [symmetric]) (simp add: add.commute)
  finally show ?thesis
    using assms by (simp add: binary64_pos e_def u_def)
qed

lemma binary64_above_binade:
  assumes "0 < x" and "- 1022 \<le> \<lfloor>log 2 x\<rfloor>"
  shows "2 powr of_int (binary64_exponent x) \<le> binary64 x"
proof -
  define e where "e = binary64_exponent x"
  define u :: real where "u = 2 powr of_int (e - 52)"
  have u: "0 < u" by (simp add: u_def)
  have e: "e = \<lfloor>log 2 x\<rfloor>" using assms(2) by (simp add: e_def binary64_exponent_def)
  have "2 powr of_int e \<le> x" unfolding e using assms(1) by (rule pow2_floor_log(1))
  then have "2 powr of_int e / u \<le> x / u" using u by (simp add: divide_right_mono)
  moreover have "2 powr of_int e / u = 2 powr 52"
    by (simp add: u_def powr_diff [symmetric])
  moreover have "(2::real) powr 52 = of_int (2 ^ 52)" by simp
  ultimately have "of_int (2 ^ 52) \<le> x / u" by simp
  then have "2 ^ 52 \<le> round_even (x / u)" by (rule round_even_ge)
  then have "(of_int (2 ^ 52) :: real) \<le> of_int (round_even (x / u))" by (simp only: of_int_le_iff)
  then have r: "of_int (2 ^ 52) * u \<le> of_int (round_even (x / u)) * u"
    using u by (simp only: mult_le_cancel_right_pos)
  have "2 powr of_int e = 2 powr 52 * u"
    unfolding u_def by (simp only: powr_add [symmetric]) simp
  also have "\<dots> = of_int (2 ^ 52) * u" by simp
  also note r
  also have "of_int (round_even (x / u)) * u = binary64 x"
    using assms(1) by (simp add: binary64_pos e_def u_def)
  finally show ?thesis unfolding e_def .
qed

lemma binary64_mono_pos:
  assumes "0 < x" and "x \<le> y"
  shows "binary64 x \<le> binary64 y"
proof -
  have y: "0 < y" using assms by simp
  have le: "binary64_exponent x \<le> binary64_exponent y"
    using assms by (rule binary64_exponent_mono)
  show ?thesis
  proof (cases "binary64_exponent x = binary64_exponent y")
    case True
    define u :: real where "u = 2 powr of_int (binary64_exponent y - 52)"
    have u: "0 < u" by (simp add: u_def)
    have "x / u \<le> y / u" using assms(2) u by (simp add: divide_right_mono)
    then have "round_even (x / u) \<le> round_even (y / u)" by (rule round_even_mono)
    then have "(of_int (round_even (x / u)) :: real) \<le> of_int (round_even (y / u))"
      by (simp only: of_int_le_iff)
    then have "of_int (round_even (x / u)) * u \<le> of_int (round_even (y / u)) * u"
      using u by (simp only: mult_le_cancel_right_pos)
    then show ?thesis
      using assms(1) y True by (simp add: binary64_pos u_def)
  next
    case False
    with le have lt: "binary64_exponent x + 1 \<le> binary64_exponent y" by simp
    then have "- 1022 < binary64_exponent y" by (simp add: binary64_exponent_def)
    then have norm: "- 1022 \<le> \<lfloor>log 2 y\<rfloor>" unfolding binary64_exponent_def by linarith
    have "binary64 x \<le> 2 powr of_int (binary64_exponent x + 1)"
      using assms(1) by (rule binary64_below_binade)
    also have "\<dots> \<le> 2 powr of_int (binary64_exponent y)"
      using lt by simp
    also have "\<dots> \<le> binary64 y"
      using y norm by (rule binary64_above_binade)
    finally show ?thesis .
  qed
qed

lemma binary64_nonneg: "0 \<le> x \<Longrightarrow> 0 \<le> binary64 x"
proof (cases "x = 0")
  case True
  then show ?thesis by (simp add: binary64_zero)
next
  case False
  assume "0 \<le> x"
  with False have x: "0 < x" by simp
  have "0 \<le> x / 2 powr of_int (binary64_exponent x - 52)" using x by simp
  then have "0 \<le> round_even (x / 2 powr of_int (binary64_exponent x - 52))"
    using round_even_ge [of 0] by simp
  then show ?thesis using x by (simp add: binary64_pos)
qed

lemma binary64_mono: "0 \<le> x \<Longrightarrow> x \<le> y \<Longrightarrow> binary64 x \<le> binary64 y"
proof (cases "x = 0")
  case True
  assume "0 \<le> x" "x \<le> y"
  then show ?thesis using True binary64_nonneg [of y] by (simp add: binary64_zero)
next
  case False
  assume "0 \<le> x" "x \<le> y"
  with False show ?thesis by (intro binary64_mono_pos) simp_all
qed


lemma binary64_minus: "binary64 (- x) = - binary64 x"
  by (simp add: binary64_def)

lemma mono_binary64: "x \<le> y \<Longrightarrow> binary64 x \<le> binary64 y"
proof -
  assume xy: "x \<le> y"
  consider "0 \<le> x" | "y \<le> 0" | "x < 0" "0 < y" by linarith
  then show ?thesis
  proof cases
    case 1
    then show ?thesis using xy by (rule binary64_mono)
  next
    case 2
    then have "0 \<le> - y" "- y \<le> - x" using xy by simp_all
    then have "binary64 (- y) \<le> binary64 (- x)" by (rule binary64_mono)
    then show ?thesis by (simp add: binary64_minus)
  next
    case 3
    have "0 \<le> binary64 (- x)" using 3(1) by (intro binary64_nonneg) simp
    then have "binary64 x \<le> 0" by (simp add: binary64_minus)
    moreover have "0 \<le> binary64 y" using 3(2) by (intro binary64_nonneg) simp
    ultimately show ?thesis by simp
  qed
qed

lemma abs_binary64: "\<bar>binary64 x\<bar> = binary64 \<bar>x\<bar>"
proof (cases "0 \<le> x")
  case True
  then show ?thesis using binary64_nonneg [of x] by simp
next
  case False
  then have "0 \<le> binary64 (- x)" by (intro binary64_nonneg) simp
  then show ?thesis using False by (simp add: binary64_minus abs_if)
qed

text \<open>
  Evaluation at a positive number below 2: with \<open>n\<close> such that \<open>x * 2 ^ n\<close> lies in the
  binade from 1 to 2, the double is the nearest multiple of \<open>1 / 2 ^ (n + 52)\<close>.
\<close>

lemma binary64_eqI:
  assumes lo: "1 \<le> x * 2 ^ n" and hi: "x * 2 ^ n < 2" and n: "n \<le> 1022"
    and r: "round_even (x * 2 ^ (n + 52)) = k"
  shows "binary64 x = of_int k / 2 ^ (n + 52)"
proof -
  have p: "(2::real) powr of_int (- int n) = 1 / 2 ^ n"
    by (simp add: powr_minus powr_realpow divide_simps)
  have x: "0 < x"
  proof (rule ccontr)
    assume "\<not> 0 < x"
    then have "x * 2 ^ n \<le> 0" by (simp add: mult_le_0_iff)
    with lo show False by simp
  qed
  have "2 powr of_int (- int n) \<le> x" unfolding p using lo by (simp add: divide_simps)
  moreover have "x < 2 powr of_int (- int n + 1)"
  proof -
    have "(of_int (- int n + 1) :: real) = of_int (- int n) + 1" by simp
    then have "(2::real) powr of_int (- int n + 1) = 2 powr (of_int (- int n) + 1)"
      by (simp only:)
    also have "\<dots> = 2 powr of_int (- int n) * 2 powr 1" by (rule powr_add)
    also have "\<dots> = 1 / 2 ^ n * 2" unfolding p by simp
    finally have q: "(2::real) powr of_int (- int n + 1) = 1 / 2 ^ n * 2" .
    have "x < 2 / 2 ^ n" using hi by (simp add: pos_less_divide_eq)
    then show ?thesis unfolding q by simp
  qed
  ultimately have "\<lfloor>log 2 x\<rfloor> = - int n" by (rule floor_log_eqI)
  then have e: "binary64_exponent x = - int n" using n by (simp add: binary64_exponent_def)
  have u: "(2::real) powr of_int (- int n - 52) = 1 / 2 ^ (n + 52)"
  proof -
    have "- int n - 52 = - int (n + 52)" by simp
    then have "(2::real) powr of_int (- int n - 52) = 2 powr (- real (n + 52))"
      by (simp only: of_int_minus of_int_of_nat_eq)
    also have "\<dots> = 1 / 2 ^ (n + 52)"
      by (simp only: powr_minus powr_realpow [of 2 "n + 52"]) (simp add: divide_simps)
    finally show ?thesis .
  qed
  show ?thesis
    unfolding binary64_pos [OF x] e u using r by simp
qed

text \<open>A dyadic rational with a numerator below \<open>2 ^ 53\<close> is a double.\<close>

lemma binary64_dyadic:
  assumes m: "m < 2 ^ 53" and n: "n \<le> 1074"
  shows "binary64 (real m / 2 ^ n) = real m / 2 ^ n"
proof (cases "m = 0")
  case True
  then show ?thesis by (simp add: binary64_zero)
next
  case False
  define x where "x = real m / 2 ^ n"
  define e where "e = binary64_exponent x"
  have x: "0 < x" using False by (simp add: x_def)
  have "x < 2 ^ 53 / 2 ^ n"
  proof -
    have "real m < 2 ^ 53" using m by (metis of_nat_less_iff of_nat_numeral of_nat_power)
    then show ?thesis by (simp add: x_def divide_strict_right_mono)
  qed
  also have "(2::real) ^ 53 / 2 ^ n = 2 powr (53 - real n)"
    by (simp add: powr_diff powr_realpow)
  finally have "log 2 x < 53 - real n"
    using log_less_iff [of 2 x "53 - real n"] x by simp
  then have "\<lfloor>log 2 x\<rfloor> < 53 - int n" by (simp add: floor_less_iff)
  then have e_le: "e \<le> 52 - int n" using n by (simp add: e_def binary64_exponent_def)
  define d where "d = nat (52 - int n - e)"
  have d: "int d = 52 - int n - e" using e_le by (simp add: d_def)
  have xm: "x = real m * 2 powr (- real n)"
    by (simp add: x_def powr_minus powr_realpow divide_inverse)
  have "x / 2 powr of_int (e - 52) = x * 2 powr (- of_int (e - 52))"
    by (simp only: powr_minus divide_inverse)
  also have "\<dots> = real m * (2 powr (- real n) * 2 powr (- of_int (e - 52)))"
    by (simp only: xm mult.assoc)
  also have "2 powr (- real n) * 2 powr (- of_int (e - 52)) = (2::real) powr (real_of_int (int d))"
  proof -
    have "- real n + - of_int (e - 52) = real_of_int (int d)" unfolding d by simp
    then show ?thesis by (simp only: powr_add [symmetric])
  qed
  also have "(2::real) powr (real_of_int (int d)) = 2 ^ d"
    by (simp add: powr_realpow)
  finally have q: "x / 2 powr of_int (e - 52) = of_int (int m * 2 ^ d)" by simp
  have "binary64 x = of_int (int m * 2 ^ d) * 2 powr of_int (e - 52)"
    unfolding binary64_pos [OF x] e_def [symmetric] q round_even_of_int ..
  also have "\<dots> = x / 2 powr of_int (e - 52) * 2 powr of_int (e - 52)"
    by (simp only: q)
  also have "\<dots> = x" by simp
  finally show ?thesis unfolding x_def .
qed

lemma binary64_sixteenth: "m \<le> 16 \<Longrightarrow> binary64 (real m / 16) = real m / 16"
  using binary64_dyadic [of m 4] by simp

lemma binary64_one_fifth: "binary64 (1 / 5) = 7205759403792794 / 2 ^ 55"
  using binary64_eqI [of "1 / 5" 3 7205759403792794] by (simp add: round_even_def frac_def)

section \<open>Properties of the scale mapper\<close>

lemma binary64_abs_le:
  assumes "\<bar>d\<bar> \<le> real m / 2 ^ n" and "m < 2 ^ 53" and "n \<le> 1074"
  shows "\<bar>binary64 d\<bar> \<le> real m / 2 ^ n"
proof -
  have "binary64 \<bar>d\<bar> \<le> binary64 (real m / 2 ^ n)" using assms(1) by (rule mono_binary64)
  then show ?thesis by (simp only: abs_binary64 binary64_dyadic [OF assms(2,3)])
qed

lemma binary64_abs_ge:
  assumes "real m / 2 ^ n \<le> \<bar>d\<bar>" and "m < 2 ^ 53" and "n \<le> 1074"
  shows "real m / 2 ^ n \<le> \<bar>binary64 d\<bar>"
proof -
  have "binary64 (real m / 2 ^ n) \<le> binary64 \<bar>d\<bar>" using assms(1) by (rule mono_binary64)
  then show ?thesis by (simp only: abs_binary64 binary64_dyadic [OF assms(2,3)])
qed

lemma binary64_abs_mono: "\<bar>c\<bar> \<le> \<bar>d\<bar> \<Longrightarrow> \<bar>binary64 c\<bar> \<le> \<bar>binary64 d\<bar>"
  unfolding abs_binary64 by (rule mono_binary64)

lemma binary64_one_half: "binary64 (1 / 2) = 1 / 2"
  using binary64_dyadic [of 1 1] by simp

lemma binary64_one: "binary64 1 = 1"
  using binary64_dyadic [of 1 0] by simp

lemma binary64_7_20: "binary64 (7 / 20) = 6305039478318694 / 2 ^ 54"
  using binary64_eqI [of "7 / 20" 2 6305039478318694] by (simp add: round_even_def frac_def)

lemma binary64_13_20: "binary64 (13 / 20) = 5854679515581645 / 2 ^ 53"
  using binary64_eqI [of "13 / 20" 1 5854679515581645] by (simp add: round_even_def frac_def)

lemma binary64_4_5: "binary64 (4 / 5) = 7205759403792794 / 2 ^ 53"
  using binary64_eqI [of "4 / 5" 1 7205759403792794] by (simp add: round_even_def frac_def)

lemma binary64_11_40: "binary64 (11 / 40) = 4953959590107546 / 2 ^ 54"
  using binary64_eqI [of "11 / 40" 2 4953959590107546] by (simp add: round_even_def frac_def)

lemma binary64_1_10: "binary64 (1 / 10) = 7205759403792794 / 2 ^ 56"
  using binary64_eqI [of "1 / 10" 4 7205759403792794] by (simp add: round_even_def frac_def)

lemma octaveSteps_values:
  "octaveSteps = [0, 7205759403792794 / 2 ^ 55, 6305039478318694 / 2 ^ 54, 1 / 2,
                  5854679515581645 / 2 ^ 53, 7205759403792794 / 2 ^ 53, 1]"
  unfolding octaveSteps_def
  using binary64_one_fifth binary64_7_20 binary64_one_half binary64_13_20 binary64_4_5
  by (simp add: binary64_zero binary64_one)

lemma length_octaveSteps: "length octaveSteps = 7"
  by (simp add: octaveSteps_def)


lemma closest_scan_Suc:
  "0 < n \<Longrightarrow> closest_scan p steps (Suc n) = closest_step p steps n (closest_scan p steps n)"
  by (simp add: closest_scan_def)

lemma closest_scan_inv:
  "0 < n \<Longrightarrow> n \<le> length steps \<Longrightarrow>
   fst (closest_scan p steps n) < n \<and>
   snd (closest_scan p steps n) = \<bar>binary64 (p - steps ! fst (closest_scan p steps n))\<bar> \<and>
   (\<forall>j<n. snd (closest_scan p steps n) \<le> \<bar>binary64 (p - steps ! j)\<bar>) \<and>
   (\<forall>j<fst (closest_scan p steps n). snd (closest_scan p steps n) < \<bar>binary64 (p - steps ! j)\<bar>)"
proof (induction n)
  case 0
  then show ?case by simp
next
  case (Suc n)
  show ?case
  proof (cases "n = 0")
    case True
    then show ?thesis by (simp add: closest_scan_def)
  next
    case False
    then have pos: "0 < n" by simp
    let ?st = "closest_scan p steps n"
    from Suc.prems have "n \<le> length steps" by simp
    from Suc.IH [OF pos this] have ih1: "fst ?st < n"
      and ih2: "snd ?st = \<bar>binary64 (p - steps ! fst ?st)\<bar>"
      and ih3: "\<forall>j<n. snd ?st \<le> \<bar>binary64 (p - steps ! j)\<bar>"
      and ih4: "\<forall>j<fst ?st. snd ?st < \<bar>binary64 (p - steps ! j)\<bar>"
      by blast+
    have step: "closest_scan p steps (Suc n) = closest_step p steps n ?st"
      using pos by (rule closest_scan_Suc)
    show ?thesis
    proof (cases "\<bar>binary64 (p - steps ! n)\<bar> < snd ?st")
      case True
      then have eq: "closest_scan p steps (Suc n) = (n, \<bar>binary64 (p - steps ! n)\<bar>)"
        by (simp add: step closest_step_def)
      have "\<forall>j<Suc n. \<bar>binary64 (p - steps ! n)\<bar> \<le> \<bar>binary64 (p - steps ! j)\<bar>"
        using ih3 True by (auto simp: less_Suc_eq)
      moreover have "\<forall>j<n. \<bar>binary64 (p - steps ! n)\<bar> < \<bar>binary64 (p - steps ! j)\<bar>"
        using ih3 True by fastforce
      ultimately show ?thesis by (simp add: eq)
    next
      case False
      then have eq: "closest_scan p steps (Suc n) = ?st"
        by (simp add: step closest_step_def)
      have "\<forall>j<Suc n. snd ?st \<le> \<bar>binary64 (p - steps ! j)\<bar>"
        using ih3 False by (auto simp: less_Suc_eq)
      then show ?thesis using ih1 ih2 ih4 by (simp add: eq)
    qed
  qed
qed

lemma closestIndex_inv:
  "closestIndex p < 7 \<and>
   (\<forall>j<7. \<bar>binary64 (p - octaveSteps ! closestIndex p)\<bar> \<le> \<bar>binary64 (p - octaveSteps ! j)\<bar>) \<and>
   (\<forall>j<closestIndex p.
      \<bar>binary64 (p - octaveSteps ! closestIndex p)\<bar> < \<bar>binary64 (p - octaveSteps ! j)\<bar>)"
proof -
  have "0 < length octaveSteps" "length octaveSteps \<le> length octaveSteps"
    by (simp_all add: length_octaveSteps)
  from closest_scan_inv [OF this, of p] show ?thesis
    unfolding closestIndex_def length_octaveSteps by metis
qed

lemma closestIndex_lt: "closestIndex p < 7"
  using closestIndex_inv [of p] by blast

lemma closestIndex_nearest:
  "j < 7 \<Longrightarrow>
   \<bar>binary64 (p - octaveSteps ! closestIndex p)\<bar> \<le> \<bar>binary64 (p - octaveSteps ! j)\<bar>"
  using closestIndex_inv [of p] by blast

lemma closestIndex_first:
  "j < closestIndex p \<Longrightarrow>
   \<bar>binary64 (p - octaveSteps ! closestIndex p)\<bar> < \<bar>binary64 (p - octaveSteps ! j)\<bar>"
  using closestIndex_inv [of p] by blast

text \<open>
  The scan returns the first index whose computed distance is minimal, and this
  determines it.
\<close>

lemma closestIndex_firstI:
  assumes k: "k < 7"
    and before: "\<And>j. j < k \<Longrightarrow>
      \<bar>binary64 (p - octaveSteps ! k)\<bar> < \<bar>binary64 (p - octaveSteps ! j)\<bar>"
    and after: "\<And>j. k < j \<Longrightarrow> j < 7 \<Longrightarrow>
      \<bar>binary64 (p - octaveSteps ! k)\<bar> \<le> \<bar>binary64 (p - octaveSteps ! j)\<bar>"
  shows "closestIndex p = k"
proof (rule ccontr)
  assume ne: "closestIndex p \<noteq> k"
  show False
  proof (cases "closestIndex p < k")
    case True
    from before [OF True] closestIndex_nearest [OF k, of p] show False by simp
  next
    case False
    with ne have lt: "k < closestIndex p" by simp
    from closestIndex_first [OF lt] after [OF lt closestIndex_lt] show False by simp
  qed
qed

lemma less_7_cases: "k < 7 \<Longrightarrow> k = 0 \<or> k = 1 \<or> k = 2 \<or> k = 3 \<or> k = 4 \<or> k = 5 \<or> k = (6::nat)"
  by auto

lemma octaveSteps_step: "j < 6 \<Longrightarrow> 1 / 16 \<le> octaveSteps ! Suc j - octaveSteps ! j"
proof -
  assume "j < 6"
  then have "j = 0 \<or> j = 1 \<or> j = 2 \<or> j = 3 \<or> j = 4 \<or> j = 5" by auto
  then show ?thesis by (auto simp: octaveSteps_values)
qed

lemma octaveSteps_gap_less: "j < k \<Longrightarrow> k < 7 \<Longrightarrow> 1 / 16 \<le> octaveSteps ! k - octaveSteps ! j"
proof (induction k)
  case 0
  then show ?case by simp
next
  case (Suc k)
  have step: "1 / 16 \<le> octaveSteps ! Suc k - octaveSteps ! k"
    using Suc.prems by (intro octaveSteps_step) simp
  show ?case
  proof (cases "j = k")
    case True
    then show ?thesis using step by simp
  next
    case False
    then have "j < k" "k < 7" using Suc.prems by simp_all
    from Suc.IH [OF this] step show ?thesis by simp
  qed
qed

lemma octaveSteps_gap:
  assumes "k < 7" and "j < 7" and "k \<noteq> j"
  shows "1 / 16 \<le> \<bar>octaveSteps ! k - octaveSteps ! j\<bar>"
proof (cases "j < k")
  case True
  from octaveSteps_gap_less [OF True assms(1)] show ?thesis by simp
next
  case False
  then have "k < j" using assms(3) by simp
  from octaveSteps_gap_less [OF this assms(2)] show ?thesis by simp
qed

lemma closestIndex_anchor: "k < 7 \<Longrightarrow> closestIndex (octaveSteps ! k) = k"
proof (rule closestIndex_firstI)
  fix j
  assume k: "k < 7"
  have z: "\<bar>binary64 (octaveSteps ! k - octaveSteps ! k)\<bar> = 0"
    by (simp add: binary64_zero)
  have far: "1 / 16 \<le> \<bar>binary64 (octaveSteps ! k - octaveSteps ! i)\<bar>"
    if "i < 7" "k \<noteq> i" for i
  proof -
    have "real 1 / 2 ^ 4 \<le> \<bar>octaveSteps ! k - octaveSteps ! i\<bar>"
      using octaveSteps_gap [OF k that] by simp
    then have "real 1 / 2 ^ 4 \<le> \<bar>binary64 (octaveSteps ! k - octaveSteps ! i)\<bar>"
      by (rule binary64_abs_ge) simp_all
    then show ?thesis by simp
  qed
  show "\<bar>binary64 (octaveSteps ! k - octaveSteps ! k)\<bar>
          < \<bar>binary64 (octaveSteps ! k - octaveSteps ! j)\<bar>" if "j < k"
    using far [of j] that k unfolding z by simp
  show "\<bar>binary64 (octaveSteps ! k - octaveSteps ! k)\<bar>
          \<le> \<bar>binary64 (octaveSteps ! k - octaveSteps ! j)\<bar>" if "k < j" "j < 7"
    using far [of j] that unfolding z by simp
qed

lemma octaveRanges_semitones:
  "k < 7 \<Longrightarrow> octaveRanges ! k * 12 = [- 24, - 12, - 6, 0, 6, 12, 24] ! k"
  using less_7_cases [of k] by (auto simp: octaveRanges_def)

lemma floor5: "0 \<le> x \<Longrightarrow> x < 1 \<Longrightarrow> 0 \<le> \<lfloor>x * 5\<rfloor> \<and> \<lfloor>x * 5\<rfloor> < 5" for x :: real
  by (simp add: floor_less_iff)

lemma semitonesFromC0_value:
  assumes "0 \<le> x" and "x < 1"
  shows "semitonesFromC0 p x y
           = Some (pentatonicIntervals ! nat \<lfloor>x * 5\<rfloor> + (of_int \<lfloor>y * 2\<rfloor> + 2) * 12
                   + [- 24, - 12, - 6, 0, 6, 12, 24] ! closestIndex p)"
proof -
  define k where "k = closestIndex p"
  define r where "r = octaveRanges ! k"
  define b where "b = (of_int \<lfloor>y * 2\<rfloor> :: real)"
  define iv where "iv = pentatonicIntervals ! nat \<lfloor>x * 5\<rfloor>"
  have k7: "k < 7" unfolding k_def by (rule closestIndex_lt)
  have tab: "r * 12 = [- 24, - 12, - 6, 0, 6, 12, 24] ! k"
    unfolding r_def using k7 by (rule octaveRanges_semitones)
  have idx: "js_index pentatonicIntervals \<lfloor>x * real (length pentatonicIntervals)\<rfloor> = Some iv"
    unfolding iv_def using floor5 [OF assms] by (simp add: js_index_def pentatonicIntervals_def)
  have "semitonesFromC0 p x y = Some (iv + (b + (2 + r)) * 12)"
    unfolding semitonesFromC0_def Let_def idx k_def [symmetric] r_def [symmetric]
      b_def [symmetric]
    by simp
  also have "iv + (b + (2 + r)) * 12 = iv + (b + 2) * 12 + r * 12"
    by (simp add: distrib_right)
  finally show ?thesis
    unfolding tab unfolding k_def b_def iv_def .
qed


lemma binary64_abs_dyadic:
  assumes "\<bar>d\<bar> = real m / 2 ^ n" and "m < 2 ^ 53" and "n \<le> 1074"
  shows "\<bar>binary64 d\<bar> = real m / 2 ^ n"
  unfolding abs_binary64 assms(1) using assms(2,3) by (rule binary64_dyadic)

lemma closestIndex_isolated:
  assumes k: "k < 7" and near: "\<bar>p - octaveSteps ! k\<bar> \<le> 1 / 16"
    and far: "\<And>j. j < 7 \<Longrightarrow> j \<noteq> k \<Longrightarrow> 1 / 8 \<le> \<bar>p - octaveSteps ! j\<bar>"
  shows "closestIndex p = k"
proof (rule closestIndex_firstI [OF k])
  have "\<bar>p - octaveSteps ! k\<bar> \<le> real 1 / 2 ^ 4" using near by simp
  then have "\<bar>binary64 (p - octaveSteps ! k)\<bar> \<le> real 1 / 2 ^ 4"
    by (rule binary64_abs_le) simp_all
  then have n: "\<bar>binary64 (p - octaveSteps ! k)\<bar> \<le> 1 / 16" by simp
  have f: "1 / 8 \<le> \<bar>binary64 (p - octaveSteps ! j)\<bar>" if "j < 7" "j \<noteq> k" for j
  proof -
    have "real 1 / 2 ^ 3 \<le> \<bar>p - octaveSteps ! j\<bar>" using far [OF that] by simp
    then have "real 1 / 2 ^ 3 \<le> \<bar>binary64 (p - octaveSteps ! j)\<bar>"
      by (rule binary64_abs_ge) simp_all
    then show ?thesis by simp
  qed
  show "\<bar>binary64 (p - octaveSteps ! k)\<bar> < \<bar>binary64 (p - octaveSteps ! j)\<bar>" if "j < k" for j
    using f [of j] n that k by simp
  show "\<bar>binary64 (p - octaveSteps ! k)\<bar> \<le> \<bar>binary64 (p - octaveSteps ! j)\<bar>"
    if "k < j" "j < 7" for j
    using f [of j] n that by simp
qed

lemma closestIndex_one_half: "closestIndex (1 / 2) = 3"
  using closestIndex_anchor [of 3] by (simp add: octaveSteps_values)

lemma closestIndex_4_5: "closestIndex (4 / 5) = 5"
proof (rule closestIndex_isolated)
  show "(5::nat) < 7" by simp
  show "\<bar>4 / 5 - octaveSteps ! 5\<bar> \<le> 1 / 16" by (simp add: octaveSteps_values)
  show "1 / 8 \<le> \<bar>4 / 5 - octaveSteps ! j\<bar>" if "j < 7" "j \<noteq> 5" for j
    using less_7_cases [OF that(1)] that(2) by (auto simp: octaveSteps_values)
qed

text \<open>
  The double next to 0.275 lies between the anchors next to 0.2 and 0.35, and the
  machine finds it closer to the second: the two distances it computes are
  \<open>5404319552844596 / 2 ^ 56\<close> and \<open>5404319552844592 / 2 ^ 56\<close>.
\<close>

lemma distance_11_40_1:
  "\<bar>binary64 (binary64 (11 / 40) - octaveSteps ! 1)\<bar> = 5404319552844596 / 2 ^ 56"
  using binary64_abs_dyadic [of "binary64 (11 / 40) - octaveSteps ! 1" 5404319552844596 56]
  by (simp add: binary64_11_40 octaveSteps_values)

lemma distance_11_40_2:
  "\<bar>binary64 (binary64 (11 / 40) - octaveSteps ! 2)\<bar> = 5404319552844592 / 2 ^ 56"
  using binary64_abs_dyadic [of "binary64 (11 / 40) - octaveSteps ! 2" 5404319552844592 56]
  by (simp add: binary64_11_40 octaveSteps_values)

lemma closestIndex_11_40: "closestIndex (binary64 (11 / 40)) = 2"
proof (rule closestIndex_firstI)
  let ?p = "binary64 (11 / 40)"
  show "(2::nat) < 7" by simp
  have f: "1 / 8 \<le> \<bar>binary64 (?p - octaveSteps ! j)\<bar>" if "j < 7" "j \<noteq> 1" "j \<noteq> 2" for j
  proof -
    have "1 / 8 \<le> \<bar>?p - octaveSteps ! j\<bar>"
      using less_7_cases [OF that(1)] that(2,3)
      by (auto simp: binary64_11_40 octaveSteps_values)
    then have "real 1 / 2 ^ 3 \<le> \<bar>?p - octaveSteps ! j\<bar>" by simp
    then have "real 1 / 2 ^ 3 \<le> \<bar>binary64 (?p - octaveSteps ! j)\<bar>"
      by (rule binary64_abs_ge) simp_all
    then show ?thesis by simp
  qed
  show "\<bar>binary64 (?p - octaveSteps ! 2)\<bar> < \<bar>binary64 (?p - octaveSteps ! j)\<bar>" if "j < 2" for j
  proof (cases "j = 1")
    case True
    show ?thesis unfolding True distance_11_40_1 distance_11_40_2 by simp
  next
    case False
    then show ?thesis using f [of j] that by (simp add: distance_11_40_2)
  qed
  show "\<bar>binary64 (?p - octaveSteps ! 2)\<bar> \<le> \<bar>binary64 (?p - octaveSteps ! j)\<bar>"
    if "2 < j" "j < 7" for j
    using f [of j] that by (simp add: distance_11_40_2)
qed

text \<open>
  The double next to 0.1 is half the anchor next to 0.2: the machine computes one
  distance to the anchors 0 and 0.2, and the scan keeps the first.
\<close>

lemma distance_1_10_0:
  "\<bar>binary64 (binary64 (1 / 10) - octaveSteps ! 0)\<bar> = 7205759403792794 / 2 ^ 56"
  using binary64_abs_dyadic [of "binary64 (1 / 10) - octaveSteps ! 0" 7205759403792794 56]
  by (simp add: binary64_1_10 octaveSteps_values)

lemma distance_1_10_1:
  "\<bar>binary64 (binary64 (1 / 10) - octaveSteps ! 1)\<bar> = 7205759403792794 / 2 ^ 56"
  using binary64_abs_dyadic [of "binary64 (1 / 10) - octaveSteps ! 1" 7205759403792794 56]
  by (simp add: binary64_1_10 octaveSteps_values)

lemma closestIndex_1_10: "closestIndex (binary64 (1 / 10)) = 0"
proof (rule closestIndex_firstI)
  let ?p = "binary64 (1 / 10)"
  show "(0::nat) < 7" by simp
  show "\<bar>binary64 (?p - octaveSteps ! 0)\<bar> < \<bar>binary64 (?p - octaveSteps ! j)\<bar>" if "j < 0" for j
    using that by simp
  show "\<bar>binary64 (?p - octaveSteps ! 0)\<bar> \<le> \<bar>binary64 (?p - octaveSteps ! j)\<bar>"
    if "0 < j" "j < 7" for j
  proof (cases "j = 1")
    case True
    show ?thesis unfolding True distance_1_10_0 distance_1_10_1 by simp
  next
    case False
    have "1 / 8 \<le> \<bar>?p - octaveSteps ! j\<bar>"
      using less_7_cases [OF that(2)] that(1) False
      by (auto simp: binary64_1_10 octaveSteps_values)
    then have "real 1 / 2 ^ 3 \<le> \<bar>?p - octaveSteps ! j\<bar>" by simp
    then have "real 1 / 2 ^ 3 \<le> \<bar>binary64 (?p - octaveSteps ! j)\<bar>"
      by (rule binary64_abs_ge) simp_all
    then show ?thesis by (simp add: distance_1_10_0)
  qed
qed

lemma octaveSteps_close:
  "list_all2 (\<lambda>a d. \<bar>a - d\<bar> \<le> 1 / 2 ^ 54) octaveSteps [0, 0.2, 0.35, 0.5, 0.65, 0.8, 1]"
  by (simp add: octaveSteps_values)

text \<open>
  C7. The octave parameter is snapped to the nearest of seven anchors, which are the
  doubles next to 0, 0.2, 0.35, 0.5, 0.65, 0.8 and 1 (each within \<open>1 / 2 ^ 54\<close> of its
  decimal). Distances are the ones the machine computes,
  \<open>Math.abs(octave - octaveSteps[i])\<close> in double precision: the index found is below 7,
  its computed distance is at most that of every anchor and strictly below that of
  every anchor before it (of two anchors at the same computed distance the first one
  wins), and an anchor that is closer in exact arithmetic than the one found has the
  same computed distance. In the semitone count that \<open>positionToFrequency\<close> forms, the
  anchor found contributes the offset at the same position of
  -24, -12, -6, 0, 6, 12, 24. Quantizing an anchor returns that anchor.
\<close>

theorem octave_quantization_nearest_anchor:
  "octaveSteps = map binary64 [0, 0.2, 0.35, 0.5, 0.65, 0.8, 1] \<and>
   list_all2 (\<lambda>a d. \<bar>a - d\<bar> \<le> 1 / 2 ^ 54) octaveSteps [0, 0.2, 0.35, 0.5, 0.65, 0.8, 1] \<and>
   closestIndex p < 7 \<and>
   (\<forall>j<7. \<bar>binary64 (p - octaveSteps ! closestIndex p)\<bar> \<le> \<bar>binary64 (p - octaveSteps ! j)\<bar>) \<and>
   (\<forall>j<closestIndex p.
      \<bar>binary64 (p - octaveSteps ! closestIndex p)\<bar> < \<bar>binary64 (p - octaveSteps ! j)\<bar>) \<and>
   (\<forall>j<7. \<bar>p - octaveSteps ! closestIndex p\<bar> \<le> \<bar>p - octaveSteps ! j\<bar> \<or>
      \<bar>binary64 (p - octaveSteps ! j)\<bar> = \<bar>binary64 (p - octaveSteps ! closestIndex p)\<bar>) \<and>
   (0 \<le> x \<and> x < 1 \<longrightarrow>
      semitonesFromC0 p x y
        = Some (pentatonicIntervals ! nat \<lfloor>x * 5\<rfloor> + (of_int \<lfloor>y * 2\<rfloor> + 2) * 12
                + [- 24, - 12, - 6, 0, 6, 12, 24] ! closestIndex p)) \<and>
   (\<forall>k<7. closestIndex (octaveSteps ! k) = k \<and>
      octaveSteps ! closestIndex (octaveSteps ! k) = octaveSteps ! k)"
proof (intro conjI allI impI)
  show "octaveSteps = map binary64 [0, 0.2, 0.35, 0.5, 0.65, 0.8, 1]"
    by (simp add: octaveSteps_def)
  show "list_all2 (\<lambda>a d. \<bar>a - d\<bar> \<le> 1 / 2 ^ 54) octaveSteps [0, 0.2, 0.35, 0.5, 0.65, 0.8, 1]"
    by (rule octaveSteps_close)
  show "closestIndex p < 7"
    by (rule closestIndex_lt)
  show "\<bar>binary64 (p - octaveSteps ! closestIndex p)\<bar> \<le> \<bar>binary64 (p - octaveSteps ! j)\<bar>"
    if "j < 7" for j
    using that by (rule closestIndex_nearest)
  show "\<bar>binary64 (p - octaveSteps ! closestIndex p)\<bar> < \<bar>binary64 (p - octaveSteps ! j)\<bar>"
    if "j < closestIndex p" for j
    using that by (rule closestIndex_first)
  show "\<bar>p - octaveSteps ! closestIndex p\<bar> \<le> \<bar>p - octaveSteps ! j\<bar> \<or>
        \<bar>binary64 (p - octaveSteps ! j)\<bar> = \<bar>binary64 (p - octaveSteps ! closestIndex p)\<bar>"
    if "j < 7" for j
  proof (cases "\<bar>p - octaveSteps ! closestIndex p\<bar> \<le> \<bar>p - octaveSteps ! j\<bar>")
    case True
    then show ?thesis by simp
  next
    case False
    then have "\<bar>p - octaveSteps ! j\<bar> \<le> \<bar>p - octaveSteps ! closestIndex p\<bar>" by simp
    then have "\<bar>binary64 (p - octaveSteps ! j)\<bar> \<le> \<bar>binary64 (p - octaveSteps ! closestIndex p)\<bar>"
      by (rule binary64_abs_mono)
    with closestIndex_nearest [OF that, of p] show ?thesis by simp
  qed
  show "semitonesFromC0 p x y
          = Some (pentatonicIntervals ! nat \<lfloor>x * 5\<rfloor> + (of_int \<lfloor>y * 2\<rfloor> + 2) * 12
                  + [- 24, - 12, - 6, 0, 6, 12, 24] ! closestIndex p)"
    if "0 \<le> x \<and> x < 1"
    using that by (simp add: semitonesFromC0_value)
  show "closestIndex (octaveSteps ! k) = k" if "k < 7" for k
    using that by (rule closestIndex_anchor)
  show "octaveSteps ! closestIndex (octaveSteps ! k) = octaveSteps ! k" if "k < 7" for k
    using that by (simp add: closestIndex_anchor)
qed

theorem octave_quantization_nearest_anchor_witness:
  "closestIndex (binary64 (11 / 40)) = 2 \<and> (1::nat) < 2 \<and> (2::nat) < 7 \<and>
   \<bar>binary64 (binary64 (11 / 40) - octaveSteps ! 2)\<bar>
     \<le> \<bar>binary64 (binary64 (11 / 40) - octaveSteps ! 1)\<bar> \<and>
   \<bar>binary64 (binary64 (11 / 40) - octaveSteps ! 2)\<bar>
     < \<bar>binary64 (binary64 (11 / 40) - octaveSteps ! 1)\<bar> \<and>
   \<bar>binary64 (binary64 (11 / 40) - octaveSteps ! 1)\<bar> = 5404319552844596 / 2 ^ 56 \<and>
   \<bar>binary64 (binary64 (11 / 40) - octaveSteps ! 2)\<bar> = 5404319552844592 / 2 ^ 56 \<and>
   (\<bar>binary64 (11 / 40) - octaveSteps ! 2\<bar> \<le> \<bar>binary64 (11 / 40) - octaveSteps ! 1\<bar> \<or>
    \<bar>binary64 (binary64 (11 / 40) - octaveSteps ! 1)\<bar>
      = \<bar>binary64 (binary64 (11 / 40) - octaveSteps ! 2)\<bar>) \<and>
   (0::real) \<le> 0 \<and> (0::real) < 1 \<and>
   semitonesFromC0 (binary64 (11 / 40)) 0 0 = Some 18 \<and>
   closestIndex (octaveSteps ! 2) = 2 \<and>
   octaveSteps ! closestIndex (octaveSteps ! 2) = octaveSteps ! 2 \<and>
   closestIndex (binary64 (1 / 10)) = 0 \<and>
   \<bar>binary64 (binary64 (1 / 10) - octaveSteps ! 0)\<bar>
     = \<bar>binary64 (binary64 (1 / 10) - octaveSteps ! 1)\<bar> \<and>
   semitonesFromC0 (binary64 (1 / 10)) 0 0 = Some 0"
proof -
  let ?p = "binary64 (11 / 40)"
  let ?q = "binary64 (1 / 10)"
  note ci = closestIndex_11_40
  note qa = octave_quantization_nearest_anchor [of ?p 0 0]
  from qa have a: "\<forall>j<7. \<bar>binary64 (?p - octaveSteps ! closestIndex ?p)\<bar>
      \<le> \<bar>binary64 (?p - octaveSteps ! j)\<bar>"
    by blast
  from qa have b: "\<forall>j<closestIndex ?p.
      \<bar>binary64 (?p - octaveSteps ! closestIndex ?p)\<bar> < \<bar>binary64 (?p - octaveSteps ! j)\<bar>"
    by blast
  from qa have c: "\<forall>j<7. \<bar>?p - octaveSteps ! closestIndex ?p\<bar> \<le> \<bar>?p - octaveSteps ! j\<bar> \<or>
      \<bar>binary64 (?p - octaveSteps ! j)\<bar> = \<bar>binary64 (?p - octaveSteps ! closestIndex ?p)\<bar>"
    by blast
  from qa have d: "(0::real) \<le> 0 \<and> (0::real) < 1 \<longrightarrow>
      semitonesFromC0 ?p 0 0
        = Some (pentatonicIntervals ! nat \<lfloor>0 * 5 :: real\<rfloor> + (of_int \<lfloor>0 * 2 :: real\<rfloor> + 2) * 12
                + [- 24, - 12, - 6, 0, 6, 12, 24] ! closestIndex ?p)"
    by blast
  from qa have e: "\<forall>k<7. closestIndex (octaveSteps ! k) = k \<and>
      octaveSteps ! closestIndex (octaveSteps ! k) = octaveSteps ! k"
    by blast
  have a1: "\<bar>binary64 (?p - octaveSteps ! 2)\<bar> \<le> \<bar>binary64 (?p - octaveSteps ! 1)\<bar>"
    using a ci by simp
  have b1: "\<bar>binary64 (?p - octaveSteps ! 2)\<bar> < \<bar>binary64 (?p - octaveSteps ! 1)\<bar>"
    using b ci by simp
  have c1: "\<bar>?p - octaveSteps ! 2\<bar> \<le> \<bar>?p - octaveSteps ! 1\<bar> \<or>
      \<bar>binary64 (?p - octaveSteps ! 1)\<bar> = \<bar>binary64 (?p - octaveSteps ! 2)\<bar>"
    using c ci by simp
  have d1: "semitonesFromC0 ?p 0 0 = Some 18"
    using d by (simp add: ci pentatonicIntervals_def)
  have e1: "closestIndex (octaveSteps ! 2) = 2 \<and>
      octaveSteps ! closestIndex (octaveSteps ! 2) = octaveSteps ! 2"
    using e by simp
  from octave_quantization_nearest_anchor [of ?q 0 0]
  have "(0::real) \<le> 0 \<and> (0::real) < 1 \<longrightarrow>
      semitonesFromC0 ?q 0 0
        = Some (pentatonicIntervals ! nat \<lfloor>0 * 5 :: real\<rfloor> + (of_int \<lfloor>0 * 2 :: real\<rfloor> + 2) * 12
                + [- 24, - 12, - 6, 0, 6, 12, 24] ! closestIndex ?q)"
    by blast
  then have d2: "semitonesFromC0 ?q 0 0 = Some 0"
    by (simp add: closestIndex_1_10 pentatonicIntervals_def)
  have t: "\<bar>binary64 (?q - octaveSteps ! 0)\<bar> = \<bar>binary64 (?q - octaveSteps ! 1)\<bar>"
    unfolding distance_1_10_0 distance_1_10_1 ..
  show ?thesis
    using ci a1 b1 c1 d1 e1 distance_11_40_1 distance_11_40_2 closestIndex_1_10 t d2 by simp
qed

lemma upt5: "[0..<5] = [0, 1, 2, 3, 4]" and upt2: "[0..<2] = [0, 1]"
  and upt7: "[0..<7] = [0, 1, 2, 3, 4, 5, 6]"
  by (simp_all add: upt_rec)

lemma semitone_grid_set: "set semitone_grid = set semitone_values"
  unfolding semitone_grid_def semitone_values_def upt5 upt2 upt7
  by (simp add: semitone_of_def pentatonicIntervals_def octaveRanges_def insert_commute)

lemma semitone_values_distinct: "distinct semitone_values"
  unfolding semitone_values_def by simp

lemma semitone_values_card: "card (set semitone_values) = 45"
  using distinct_card [OF semitone_values_distinct] by (simp add: semitone_values_def)

lemma frequency_of_inj: "inj frequency_of"
proof (rule injI)
  fix s t :: real
  assume "frequency_of s = frequency_of t"
  then have "(2::real) powr (s / 12) = 2 powr (t / 12)"
    by (simp add: frequency_of_def c0Freq_def)
  then have "s / 12 = t / 12"
    by (simp add: powr_inj)
  then show "s = t" by simp
qed

lemma frequency_of_pos: "0 < frequency_of s"
  by (simp add: frequency_of_def c0Freq_def)

lemma semitone_grid_mem:
  "i < 5 \<Longrightarrow> b < 2 \<Longrightarrow> k < 7 \<Longrightarrow> semitone_of i b k \<in> set semitone_grid"
  unfolding semitone_grid_def by force

lemma semitone_grid_cases:
  "s \<in> set semitone_grid \<Longrightarrow> \<exists>i<5. \<exists>b<2. \<exists>k<7. s = semitone_of i b k"
  unfolding semitone_grid_def by fastforce


lemma nat_floor5: "0 \<le> x \<Longrightarrow> x < 1 \<Longrightarrow> nat \<lfloor>x * 5\<rfloor> < 5" for x :: real
  using floor5 [of x] by linarith

lemma floor2: "0 \<le> y \<Longrightarrow> y < 1 \<Longrightarrow> 0 \<le> \<lfloor>y * 2\<rfloor> \<and> \<lfloor>y * 2\<rfloor> < 2" for y :: real
  by (simp add: floor_less_iff)

lemma nat_floor2: "0 \<le> y \<Longrightarrow> y < 1 \<Longrightarrow> nat \<lfloor>y * 2\<rfloor> < 2" for y :: real
  using floor2 [of y] by linarith

lemma semitonesFromC0_in_range:
  assumes "0 \<le> x" "x < 1" "0 \<le> y" "y < 1"
  shows "semitonesFromC0 p x y
           = Some (semitone_of (nat \<lfloor>x * 5\<rfloor>) (nat \<lfloor>y * 2\<rfloor>) (closestIndex p))"
  using floor5 [OF assms(1,2)] floor2 [OF assms(3,4)]
  by (simp add: semitonesFromC0_def js_index_def semitone_of_def pentatonicIntervals_def Let_def)

lemma semitonesFromC0_attained:
  assumes "i < 5" "b < 2" "k < 7"
  shows "semitonesFromC0 (octaveSteps ! k) (real i / 5) (real b / 2) = Some (semitone_of i b k)"
proof -
  have "0 \<le> real i / 5" "real i / 5 < 1" "0 \<le> real b / 2" "real b / 2 < 1"
    using assms by simp_all
  from semitonesFromC0_in_range [OF this] show ?thesis
    using assms by (simp add: closestIndex_anchor)
qed

lemma frequency_range:
  "{f. \<exists>p x y. 0 \<le> x \<and> x < 1 \<and> 0 \<le> y \<and> y < 1 \<and> positionToFrequency p x y = Some f}
     = frequency_of ` set semitone_values"
proof (intro equalityI subsetI)
  fix f
  assume "f \<in> {f. \<exists>p x y. 0 \<le> x \<and> x < 1 \<and> 0 \<le> y \<and> y < 1 \<and> positionToFrequency p x y = Some f}"
  then obtain p x y where xy: "0 \<le> x" "x < 1" "0 \<le> y" "y < 1"
    and f: "positionToFrequency p x y = Some f" by blast
  let ?s = "semitone_of (nat \<lfloor>x * 5\<rfloor>) (nat \<lfloor>y * 2\<rfloor>) (closestIndex p)"
  have "f = frequency_of ?s"
    using f semitonesFromC0_in_range [OF xy, of p]
    by (simp add: positionToFrequency_def frequency_of_def)
  moreover have "?s \<in> set semitone_grid"
    using nat_floor5 [OF xy(1,2)] nat_floor2 [OF xy(3,4)] closestIndex_lt [of p]
    by (rule semitone_grid_mem)
  ultimately show "f \<in> frequency_of ` set semitone_values"
    by (simp add: semitone_grid_set)
next
  fix f
  assume "f \<in> frequency_of ` set semitone_values"
  then obtain s where s: "s \<in> set semitone_grid" and f: "f = frequency_of s"
    by (auto simp: semitone_grid_set)
  from semitone_grid_cases [OF s] obtain i b k
    where ibk: "i < 5" "b < 2" "k < 7" and s_eq: "s = semitone_of i b k" by blast
  have "positionToFrequency (octaveSteps ! k) (real i / 5) (real b / 2) = Some f"
    using semitonesFromC0_attained [OF ibk]
    by (simp add: positionToFrequency_def f s_eq frequency_of_def)
  moreover have "0 \<le> real i / 5" "real i / 5 < 1" "0 \<le> real b / 2" "real b / 2 < 1"
    using ibk by simp_all
  ultimately show "f \<in> {f. \<exists>p x y. 0 \<le> x \<and> x < 1 \<and> 0 \<le> y \<and> y < 1 \<and> positionToFrequency p x y = Some f}"
    by blast
qed

lemma frequency_card: "card (frequency_of ` set semitone_values) = 45"
  using card_image [OF inj_on_subset [OF frequency_of_inj subset_UNIV], of "set semitone_values"]
  by (simp add: semitone_values_card)

text \<open>
  C2, as the code has it. For \<open>x\<close> and \<open>y\<close> in the half-open interval from 0 to 1 and
  every octave parameter, \<open>positionToFrequency\<close> returns a strictly positive number, and
  the numbers it returns there are exactly 45 different ones: the 5 pitch classes
  combine with only 9 different octaves, since the 2 octave bands and the 7 anchors give
  the octave sums 0, 1, 1.5, 2, 2.5, 3, 3.5, 4 and 5.
\<close>

theorem positionToFrequency_positive_45_values:
  "(0 \<le> x \<and> x < 1 \<and> 0 \<le> y \<and> y < 1 \<longrightarrow>
      (\<exists>f. positionToFrequency p x y = Some f \<and> 0 < f)) \<and>
   card {f. \<exists>p x y. 0 \<le> x \<and> x < 1 \<and> 0 \<le> y \<and> y < 1 \<and> positionToFrequency p x y = Some f} = 45"
proof (intro conjI impI)
  assume xy: "0 \<le> x \<and> x < 1 \<and> 0 \<le> y \<and> y < 1"
  then show "\<exists>f. positionToFrequency p x y = Some f \<and> 0 < f"
    using semitonesFromC0_in_range [of x y p] frequency_of_pos
    by (simp add: positionToFrequency_def frequency_of_def)
next
  show "card {f. \<exists>p x y. 0 \<le> x \<and> x < 1 \<and> 0 \<le> y \<and> y < 1 \<and> positionToFrequency p x y = Some f} = 45"
    unfolding frequency_range by (rule frequency_card)
qed

theorem positionToFrequency_positive_45_values_witness:
  "(0::real) \<le> 3 / 10 \<and> (3 / 10 :: real) < 1 \<and> (0::real) \<le> 3 / 4 \<and> (3 / 4 :: real) < 1 \<and>
   positionToFrequency (1 / 2) (3 / 10) (3 / 4) = Some (c0Freq * 2 powr (38 / 12)) \<and>
   (\<exists>f. positionToFrequency (1 / 2) (3 / 10) (3 / 4) = Some f \<and> 0 < f)"
proof -
  have h: "(0::real) \<le> 3 / 10 \<and> (3 / 10 :: real) < 1 \<and> (0::real) \<le> 3 / 4 \<and> (3 / 4 :: real) < 1"
    by simp
  have v: "positionToFrequency (1 / 2) (3 / 10) (3 / 4) = Some (c0Freq * 2 powr (38 / 12))"
    by (simp add: positionToFrequency_def semitonesFromC0_def js_index_def
        pentatonicIntervals_def closestIndex_one_half octaveRanges_def)
  from positionToFrequency_positive_45_values [of "3 / 10" "3 / 4" "1 / 2"] h
  have "\<exists>f. positionToFrequency (1 / 2) (3 / 10) (3 / 4) = Some f \<and> 0 < f"
    by blast
  with h v show ?thesis by blast
qed

text \<open>
  C2 as the claim states it fails twice. At \<open>x = 1\<close> the index \<open>floor(x * 5)\<close> is 5, which
  the code does not clamp: the interval read is \<open>undefined\<close> and the frequency is
  \<open>NaN\<close>, not a positive number. And two of the 70 combinations give one frequency:
  pitch class 0 in the upper band with the anchor 0.5, and pitch class 0 in the lower
  band with the anchor 0.8, both lie 36 semitones above C0.
\<close>

theorem positionToFrequency_70_values_counterexample:
  "positionToFrequency (1 / 2) 1 0 = None \<and>
   positionToFrequency (1 / 2) 0 (1 / 2) = positionToFrequency (4 / 5) 0 0 \<and>
   closestIndex (1 / 2) = 3 \<and> closestIndex (4 / 5) = 5"
  by (simp add: positionToFrequency_def semitonesFromC0_def js_index_def pentatonicIntervals_def
      closestIndex_one_half closestIndex_4_5 octaveRanges_def)

section \<open>Properties of the parameter surface\<close>

lemma clamp01_range: "0 \<le> clamp01 v \<and> clamp01 v \<le> 1"
  by (simp add: clamp01_def)

lemma clamp01_id: "0 \<le> v \<Longrightarrow> v \<le> 1 \<Longrightarrow> clamp01 v = v"
  by (simp add: clamp01_def)

lemma getParameter_setParameter: "getParameter (setParameter name v s) name = Some (clamp01 v)"
  by (simp add: getParameter_def setParameter_def Let_def split: option.splits)

lemma getParameter_setParameter_other:
  "other \<noteq> name \<Longrightarrow> getParameter (setParameter name v s) other = getParameter s other"
  by (auto simp: getParameter_def setParameter_def Let_def split: option.splits)

lemma setParameter_grime:
  "effects s = Some e \<Longrightarrow>
   effects (setParameter ''grime'' v s)
     = Some (e\<lparr>distortionCurve := 20 + 200 * v, distortionWet := v, distortionDry := 1 - v\<rparr>)"
  by (simp add: setParameter_def Let_def mult.commute)

lemma setParameter_flow:
  "effects s = Some e \<Longrightarrow>
   effects (setParameter ''flow'' v s)
     = Some (e\<lparr>delayTime := (50 + 450 * v) / 1000, delayGain := 0.8 * v,
               delayFeedback := 0.85 * v\<rparr>)"
  by (simp add: setParameter_def Let_def mult.commute add_divide_distrib)

lemma setParameter_shimmer:
  "effects s = Some e \<Longrightarrow>
   effects (setParameter ''shimmer'' v s)
     = Some (e\<lparr>chorusGain := 0.8 * v, chorusDepth := 0.01 * v\<rparr>)"
  by (simp add: setParameter_def Let_def mult.commute)

lemma setParameter_depth:
  "effects s = Some e \<Longrightarrow>
   effects (setParameter ''depth'' v s) = Some (e\<lparr>reverbGain := 0.5 * v\<rparr>)"
  by (simp add: setParameter_def Let_def mult.commute)

lemma setParameter_octave: "effects (setParameter ''octave'' v s) = effects s"
  by (simp add: setParameter_def Let_def)

lemma setParameter_voices:
  "voices (setParameter name v s) = voices s \<and> maxVoices (setParameter name v s) = maxVoices s"
  by (simp add: setParameter_def Let_def split: option.splits)

lemma getParameter_setParameter_explicit:
  "getParameter (setParameter name v s) name = Some (max 0 (min 1 v))"
  by (simp add: getParameter_def setParameter_def clamp01_def Let_def split: option.splits)

lemma setParameter_no_nodes: "effects s = None \<Longrightarrow> effects (setParameter name v s) = None"
  by (simp add: setParameter_def Let_def)

text \<open>
  C9, as the code has it. \<open>setParameter(name, v)\<close> stores \<open>max(0, min(1, v))\<close>, which is 0
  for \<open>v\<close> below 0, 1 for \<open>v\<close> above 1 and \<open>v\<close> itself in between, for every name and so
  for each of grime, flow, shimmer, depth and octave. Once the effect nodes exist (after
  \<open>initialize\<close>) and for \<open>v\<close> between 0 and 1, the call sets the effect state by the
  table: grime gives drive \<open>20 + 200 v\<close>, wet \<open>v\<close>, dry \<open>1 - v\<close>; flow gives delay time
  \<open>50 + 450 v\<close> milliseconds, delay level \<open>0.8 v\<close>, feedback \<open>0.85 v\<close>; shimmer gives
  chorus level \<open>0.8 v\<close> and chorus depth \<open>0.01 v\<close>; depth gives reverb level \<open>0.5 v\<close>;
  octave leaves the effect state as it is. The delay time is kept in seconds. While the
  effect nodes do not exist, the call derives no effect state.
\<close>

theorem setParameter_clamps_and_derives:
  "getParameter (setParameter name v s) name = Some (max 0 (min 1 v)) \<and>
   (v < 0 \<longrightarrow> getParameter (setParameter name v s) name = Some 0) \<and>
   (1 < v \<longrightarrow> getParameter (setParameter name v s) name = Some 1) \<and>
   (0 \<le> v \<and> v \<le> 1 \<longrightarrow> getParameter (setParameter name v s) name = Some v) \<and>
   (effects s = Some e \<and> 0 \<le> v \<and> v \<le> 1 \<longrightarrow>
      effects (setParameter ''grime'' v s)
        = Some (e\<lparr>distortionCurve := 20 + 200 * v, distortionWet := v,
                  distortionDry := 1 - v\<rparr>) \<and>
      effects (setParameter ''flow'' v s)
        = Some (e\<lparr>delayTime := (50 + 450 * v) / 1000, delayGain := 0.8 * v,
                  delayFeedback := 0.85 * v\<rparr>) \<and>
      effects (setParameter ''shimmer'' v s)
        = Some (e\<lparr>chorusGain := 0.8 * v, chorusDepth := 0.01 * v\<rparr>) \<and>
      effects (setParameter ''depth'' v s) = Some (e\<lparr>reverbGain := 0.5 * v\<rparr>) \<and>
      effects (setParameter ''octave'' v s) = Some e) \<and>
   (effects s = None \<longrightarrow> effects (setParameter name v s) = None)"
proof (intro conjI impI)
  show "getParameter (setParameter name v s) name = Some (max 0 (min 1 v))"
    by (rule getParameter_setParameter_explicit)
  show "getParameter (setParameter name v s) name = Some 0" if "v < 0"
    using that by (simp add: getParameter_setParameter_explicit)
  show "getParameter (setParameter name v s) name = Some 1" if "1 < v"
    using that by (simp add: getParameter_setParameter_explicit)
  show "getParameter (setParameter name v s) name = Some v" if "0 \<le> v \<and> v \<le> 1"
    using that by (simp add: getParameter_setParameter_explicit)
  show "effects (setParameter name v s) = None" if "effects s = None"
    using that by (rule setParameter_no_nodes)
next
  assume "effects s = Some e \<and> 0 \<le> v \<and> v \<le> 1"
  then have e: "effects s = Some e" by simp
  show "effects (setParameter ''grime'' v s)
        = Some (e\<lparr>distortionCurve := 20 + 200 * v, distortionWet := v,
                  distortionDry := 1 - v\<rparr>)"
    using e by (rule setParameter_grime)
  show "effects (setParameter ''flow'' v s)
        = Some (e\<lparr>delayTime := (50 + 450 * v) / 1000, delayGain := 0.8 * v,
                  delayFeedback := 0.85 * v\<rparr>)"
    using e by (rule setParameter_flow)
  show "effects (setParameter ''shimmer'' v s)
        = Some (e\<lparr>chorusGain := 0.8 * v, chorusDepth := 0.01 * v\<rparr>)"
    using e by (rule setParameter_shimmer)
  show "effects (setParameter ''depth'' v s) = Some (e\<lparr>reverbGain := 0.5 * v\<rparr>)"
    using e by (rule setParameter_depth)
  show "effects (setParameter ''octave'' v s) = Some e"
    using e by (simp add: setParameter_octave)
qed

theorem setParameter_clamps_and_derives_witness:
  "effects (initialize True (Synthesizer_new None None))
     = Some (setupAudioChain (Synthesizer_new None None)) \<and>
   (0::real) \<le> 1 / 2 \<and> (1 / 2 :: real) \<le> 1 \<and>
   getParameter (setParameter ''grime'' (1 / 2) (initialize True (Synthesizer_new None None)))
     ''grime'' = Some (1 / 2) \<and>
   effects (setParameter ''grime'' (1 / 2) (initialize True (Synthesizer_new None None)))
     = Some \<lparr> distortionCurve = 120, distortionWet = 1 / 2, distortionDry = 1 / 2,
              delayTime = 0.2, delayGain = 0.3, delayFeedback = 0.4, chorusGain = 0.5,
              chorusDepth = 0.005, reverbGain = 0.2 \<rparr> \<and>
   effects (setParameter ''flow'' (1 / 2) (initialize True (Synthesizer_new None None)))
     = Some \<lparr> distortionCurve = 50, distortionWet = 0.3, distortionDry = 0.7,
              delayTime = 0.275, delayGain = 0.4, delayFeedback = 0.425, chorusGain = 0.5,
              chorusDepth = 0.005, reverbGain = 0.2 \<rparr> \<and>
   (- 1 :: real) < 0 \<and>
   getParameter (setParameter ''depth'' (- 1) (initialize True (Synthesizer_new None None)))
     ''depth'' = Some 0 \<and>
   (1::real) < 2 \<and>
   getParameter (setParameter ''octave'' 2 (initialize True (Synthesizer_new None None)))
     ''octave'' = Some 1 \<and>
   effects (Synthesizer_new None None) = None \<and>
   effects (setParameter ''shimmer'' (1 / 2) (Synthesizer_new None None)) = None"
proof -
  let ?s = "initialize True (Synthesizer_new None None)"
  let ?e = "setupAudioChain (Synthesizer_new None None)"
  have h1: "effects ?s = Some ?e"
    by (simp add: initialize_def Synthesizer_new_def)
  have h2: "(0::real) \<le> 1 / 2" and h3: "(1 / 2 :: real) \<le> 1" by simp_all
  from setParameter_clamps_and_derives [of "''grime''" "1 / 2" ?s ?e] h1 h2 h3
  have a: "getParameter (setParameter ''grime'' (1 / 2) ?s) ''grime'' = Some (1 / 2)"
    and b: "effects (setParameter ''grime'' (1 / 2) ?s)
      = Some (?e\<lparr>distortionCurve := 20 + 200 * (1 / 2), distortionWet := 1 / 2,
                   distortionDry := 1 - 1 / 2\<rparr>)"
    and c: "effects (setParameter ''flow'' (1 / 2) ?s)
      = Some (?e\<lparr>delayTime := (50 + 450 * (1 / 2)) / 1000, delayGain := 0.8 * (1 / 2),
                   delayFeedback := 0.85 * (1 / 2)\<rparr>)"
    by blast+
  have h4: "(- 1 :: real) < 0" and h5: "(1::real) < 2" by simp_all
  from setParameter_clamps_and_derives [of "''depth''" "- 1" ?s ?e] h4
  have d: "getParameter (setParameter ''depth'' (- 1) ?s) ''depth'' = Some 0" by blast
  from setParameter_clamps_and_derives [of "''octave''" 2 ?s ?e] h5
  have f: "getParameter (setParameter ''octave'' 2 ?s) ''octave'' = Some 1" by blast
  have h6: "effects (Synthesizer_new None None) = None" by (simp add: Synthesizer_new_def)
  from setParameter_clamps_and_derives [of "''shimmer''" "1 / 2" "Synthesizer_new None None" ?e] h6
  have g: "effects (setParameter ''shimmer'' (1 / 2) (Synthesizer_new None None)) = None"
    by blast
  show ?thesis
    unfolding a b c d f g using h1 h6 by (simp add: setupAudioChain_def Synthesizer_new_def)
qed

text \<open>
  C9 as the claim states it fails before \<open>initialize\<close>: on a synthesizer as the
  constructor leaves it the effect nodes are \<open>null\<close>, and \<open>setParameter('grime', 0.5)\<close>
  stores 0.5 and derives no effect state; so do the calls for flow, shimmer and depth.
\<close>

theorem setParameter_before_initialize_counterexample:
  "getParameter (setParameter ''grime'' (1 / 2) (Synthesizer_new None None)) ''grime''
     = Some (1 / 2) \<and>
   effects (setParameter ''grime'' (1 / 2) (Synthesizer_new None None)) = None \<and>
   effects (setParameter ''flow'' (1 / 2) (Synthesizer_new None None)) = None \<and>
   effects (setParameter ''shimmer'' (1 / 2) (Synthesizer_new None None)) = None \<and>
   effects (setParameter ''depth'' (1 / 2) (Synthesizer_new None None)) = None"
proof -
  have "effects (Synthesizer_new None None) = None" by (simp add: Synthesizer_new_def)
  then show ?thesis
    by (simp add: setParameter_no_nodes getParameter_setParameter_explicit)
qed



section \<open>Properties of the voice pool\<close>

lemma findIndex_None: "findIndex P xs = None \<longleftrightarrow> (\<forall>x \<in> set xs. \<not> P x)"
  by (induction xs) auto

lemma findIndex_Some:
  "findIndex P xs = Some i \<Longrightarrow> i < length xs \<and> P (xs ! i) \<and> (\<forall>j<i. \<not> P (xs ! j))"
proof (induction xs arbitrary: i)
  case Nil
  then show ?case by simp
next
  case (Cons x xs)
  show ?case
  proof (cases "P x")
    case True
    with Cons.prems show ?thesis by simp
  next
    case False
    with Cons.prems obtain k where k: "findIndex P xs = Some k" and i: "i = Suc k"
      by auto
    from Cons.IH [OF k] False show ?thesis
      by (auto simp: i less_Suc_eq_0_disj)
  qed
qed

lemma playing_off: "\<not> playing v \<Longrightarrow> v\<lparr>playing := False\<rparr> = v"
  by (cases v) simp

lemma startVoice_null: "fst (startVoice now x y intensity s) = None \<longleftrightarrow> \<not> isInitialized s"
  by (simp add: startVoice_def Let_def split: option.splits prod.splits)

lemma startVoice_free_slot:
  assumes "isInitialized s" and "findIndex (\<lambda>v. \<not> playing v) (voices s) = Some i"
  shows "snd (startVoice now x y intensity s)
           = s\<lparr>voices := (voices s)[i := createVoice now (currentFrequency s x y) intensity x y]\<rparr>"
  using assms findIndex_Some [OF assms(2)]
  by (simp add: startVoice_def Let_def array_set_def)

lemma startVoice_append:
  assumes "isInitialized s" and "findIndex (\<lambda>v. \<not> playing v) (voices s) = None"
    and "int (length (voices s)) < maxVoices s"
  shows "snd (startVoice now x y intensity s)
           = s\<lparr>voices := voices s @ [createVoice now (currentFrequency s x y) intensity x y]\<rparr>"
  using assms by (simp add: startVoice_def Let_def array_set_def)

lemma startVoice_steal:
  assumes "isInitialized s" and "findIndex (\<lambda>v. \<not> playing v) (voices s) = None"
    and "\<not> int (length (voices s)) < maxVoices s" and "voices s \<noteq> []"
  shows "snd (startVoice now x y intensity s)
           = s\<lparr>voices := (voices s)[0 := createVoice now (currentFrequency s x y) intensity x y],
                released := released s @ [voices s ! 0]\<rparr>"
proof -
  have "playing (voices s ! 0)"
    using assms(2,4) by (simp add: findIndex_None)
  then show ?thesis
    using assms by (simp add: startVoice_def Let_def array_set_def stopVoice_def)
qed

lemma stopVoice_fields:
  "maxVoices (stopVoice i s) = maxVoices s \<and> isInitialized (stopVoice i s) = isInitialized s \<and>
   length (voices (stopVoice i s)) = length (voices s)"
  by (simp add: stopVoice_def)

lemma stopVoice_nth:
  "j < length (voices s) \<Longrightarrow>
   voices (stopVoice i s) ! j = (if j = i then (voices s ! j)\<lparr>playing := False\<rparr> else voices s ! j)"
  by (simp add: stopVoice_def playing_off nth_list_update)

lemma stopVoice_released:
  "i < length (voices s) \<Longrightarrow>
   released (stopVoice i s) = released s @ filter playing [voices s ! i]"
  by (simp add: stopVoice_def)

text \<open>
  The loop \<open>excessVoices.forEach(voice => this.stopVoice(voice))\<close> over the slots from
  \<open>k\<close> on, after \<open>m\<close> rounds.
\<close>

lemma fold_stopVoice:
  "k + m \<le> length (voices s) \<Longrightarrow>
   maxVoices (fold stopVoice [k..<k + m] s) = maxVoices s \<and>
   length (voices (fold stopVoice [k..<k + m] s)) = length (voices s) \<and>
   (\<forall>j<length (voices s).
      voices (fold stopVoice [k..<k + m] s) ! j
        = (if k \<le> j \<and> j < k + m then (voices s ! j)\<lparr>playing := False\<rparr> else voices s ! j)) \<and>
   released (fold stopVoice [k..<k + m] s)
     = released s @ filter playing (take m (drop k (voices s)))"
proof (induction m)
  case 0
  then show ?case by auto
next
  case (Suc m)
  let ?t = "fold stopVoice [k..<k + m] s"
  from Suc.prems have le: "k + m \<le> length (voices s)" and lt: "k + m < length (voices s)"
    by simp_all
  from Suc.IH [OF le] have mx: "maxVoices ?t = maxVoices s"
    and len: "length (voices ?t) = length (voices s)"
    and nth: "\<forall>j<length (voices s). voices ?t ! j
        = (if k \<le> j \<and> j < k + m then (voices s ! j)\<lparr>playing := False\<rparr> else voices s ! j)"
    and rel: "released ?t = released s @ filter playing (take m (drop k (voices s)))"
    by blast+
  have step: "fold stopVoice [k..<k + Suc m] s = stopVoice (k + m) ?t"
    by simp
  have cur: "voices ?t ! (k + m) = voices s ! (k + m)"
    using nth lt by simp
  have tk: "take (Suc m) (drop k (voices s)) = take m (drop k (voices s)) @ [voices s ! (k + m)]"
    using lt by (simp add: take_Suc_conv_app_nth)
  have "released (stopVoice (k + m) ?t)
          = released s @ filter playing (take (Suc m) (drop k (voices s)))"
    using stopVoice_released [of "k + m" ?t] lt len rel cur by (simp add: tk)
  moreover have "\<forall>j<length (voices s). voices (stopVoice (k + m) ?t) ! j
        = (if k \<le> j \<and> j < k + Suc m then (voices s ! j)\<lparr>playing := False\<rparr> else voices s ! j)"
  proof (intro allI impI)
    fix j assume j: "j < length (voices s)"
    then have "voices (stopVoice (k + m) ?t) ! j
        = (if j = k + m then (voices ?t ! j)\<lparr>playing := False\<rparr> else voices ?t ! j)"
      using stopVoice_nth [of j ?t "k + m"] len by simp
    then show "voices (stopVoice (k + m) ?t) ! j
        = (if k \<le> j \<and> j < k + Suc m then (voices s ! j)\<lparr>playing := False\<rparr> else voices s ! j)"
      using nth j cur by (auto simp: less_Suc_eq)
  qed
  ultimately show ?case
    unfolding step using mx len by (simp add: stopVoice_fields)
qed

lemma slice_from_le: "slice_from start n \<le> n"
  by (auto simp: slice_from_def)

lemma ceiling_nonneg: "0 \<le> c \<Longrightarrow> 0 \<le> \<lceil>5 * c\<rceil>" for c :: real
  by (simp add: le_ceiling_iff)

lemma setComplexity_unfold:
  "setComplexity c s =
     (if \<lceil>5 * c\<rceil> < maxVoices s
      then fold stopVoice
             [slice_from \<lceil>5 * c\<rceil> (length (voices s))..<
              slice_from \<lceil>5 * c\<rceil> (length (voices s))
                + (length (voices s) - slice_from \<lceil>5 * c\<rceil> (length (voices s)))]
             (s\<lparr>maxVoices := \<lceil>5 * c\<rceil>\<rparr>)
      else s\<lparr>maxVoices := \<lceil>5 * c\<rceil>\<rparr>)"
proof -
  define m where "m = \<lceil>5 * c\<rceil>"
  define k where "k = slice_from m (length (voices s))"
  have "k \<le> length (voices s)" unfolding k_def by (rule slice_from_le)
  then have "k + (length (voices s) - k) = length (voices s)" by simp
  then have "[k..<k + (length (voices s) - k)] = [k..<length (voices s)]" by simp
  then show ?thesis
    unfolding setComplexity_def Let_def m_def [symmetric] by (simp add: k_def)
qed

lemma setComplexity_maxVoices: "maxVoices (setComplexity c s) = \<lceil>5 * c\<rceil>"
proof -
  define m where "m = \<lceil>5 * c\<rceil>"
  define k where "k = slice_from m (length (voices s))"
  have "k \<le> length (voices s)" unfolding k_def by (rule slice_from_le)
  then have "k + (length (voices s) - k) \<le> length (voices (s\<lparr>maxVoices := m\<rparr>))" by simp
  from fold_stopVoice [OF this] show ?thesis
    unfolding setComplexity_unfold m_def [symmetric] k_def [symmetric] by simp
qed

lemma setComplexity_length: "length (voices (setComplexity c s)) = length (voices s)"
proof -
  define m where "m = \<lceil>5 * c\<rceil>"
  define k where "k = slice_from m (length (voices s))"
  have "k \<le> length (voices s)" unfolding k_def by (rule slice_from_le)
  then have "k + (length (voices s) - k) \<le> length (voices (s\<lparr>maxVoices := m\<rparr>))" by simp
  from fold_stopVoice [OF this] show ?thesis
    unfolding setComplexity_unfold m_def [symmetric] k_def [symmetric] by simp
qed

lemma setComplexity_keep:
  "\<not> \<lceil>5 * c\<rceil> < maxVoices s \<Longrightarrow>
   voices (setComplexity c s) = voices s \<and> released (setComplexity c s) = released s"
  by (simp add: setComplexity_def Let_def)

lemma setComplexity_shrink:
  assumes "\<lceil>5 * c\<rceil> < maxVoices s" and "0 \<le> c"
  shows "voices (setComplexity c s)
           = take (nat \<lceil>5 * c\<rceil>) (voices s)
             @ map (\<lambda>v. v\<lparr>playing := False\<rparr>) (drop (nat \<lceil>5 * c\<rceil>) (voices s))"
    and "released (setComplexity c s)
           = released s @ filter playing (drop (nat \<lceil>5 * c\<rceil>) (voices s))"
proof -
  define m where "m = \<lceil>5 * c\<rceil>"
  define n where "n = length (voices s)"
  define k where "k = min (nat m) n"
  define s1 where "s1 = s\<lparr>maxVoices := m\<rparr>"
  have nonneg: "0 \<le> m" unfolding m_def using assms(2) by (rule ceiling_nonneg)
  then have sl: "slice_from m n = k" by (simp add: slice_from_def k_def)
  have vs1: "voices s1 = voices s" and rs1: "released s1 = released s"
    by (simp_all add: s1_def)
  have bound: "k + (n - k) \<le> length (voices s1)" by (simp add: vs1 n_def k_def)
  have eq: "setComplexity c s = fold stopVoice [k..<k + (n - k)] s1"
    using assms(1)
    unfolding setComplexity_unfold m_def [symmetric] n_def [symmetric] sl s1_def [symmetric]
    by simp
  note f = fold_stopVoice [OF bound]
  have kn: "k + (n - k) = n" by (simp add: k_def)
  from f have len: "length (voices (setComplexity c s)) = n"
    unfolding eq vs1 n_def [symmetric] by blast
  from f have nth: "\<forall>j<n. voices (setComplexity c s) ! j
      = (if k \<le> j \<and> j < n then (voices s ! j)\<lparr>playing := False\<rparr> else voices s ! j)"
    unfolding eq vs1 n_def [symmetric] kn by blast
  from f have rel: "released (setComplexity c s)
      = released s @ filter playing (take (n - k) (drop k (voices s)))"
    unfolding eq vs1 rs1 by blast
  have "voices (setComplexity c s)
           = take (nat m) (voices s) @ map (\<lambda>v. v\<lparr>playing := False\<rparr>) (drop (nat m) (voices s))"
  proof (rule nth_equalityI)
    show "length (voices (setComplexity c s))
        = length (take (nat m) (voices s)
             @ map (\<lambda>v. v\<lparr>playing := False\<rparr>) (drop (nat m) (voices s)))"
      using len by (simp add: n_def)
  next
    fix j assume "j < length (voices (setComplexity c s))"
    then have j: "j < n" using len by simp
    show "voices (setComplexity c s) ! j
        = (take (nat m) (voices s)
             @ map (\<lambda>v. v\<lparr>playing := False\<rparr>) (drop (nat m) (voices s))) ! j"
    proof (cases "j < nat m")
      case True
      then have "\<not> k \<le> j" using j by (simp add: k_def)
      then show ?thesis using nth j True by (simp add: nth_append n_def)
    next
      case False
      then have "k \<le> j" by (simp add: k_def)
      then show ?thesis using nth j False by (simp add: nth_append n_def min_def)
    qed
  qed
  then show "voices (setComplexity c s)
           = take (nat \<lceil>5 * c\<rceil>) (voices s)
             @ map (\<lambda>v. v\<lparr>playing := False\<rparr>) (drop (nat \<lceil>5 * c\<rceil>) (voices s))"
    unfolding m_def .
  have "take (n - k) (drop k (voices s)) = drop (nat m) (voices s)"
    by (simp add: k_def n_def min_def)
  with rel have "released (setComplexity c s) = released s @ filter playing (drop (nat m) (voices s))"
    by simp
  then show "released (setComplexity c s)
           = released s @ filter playing (drop (nat \<lceil>5 * c\<rceil>) (voices s))"
    unfolding m_def .
qed

lemma setComplexity_shrink_count:
  assumes "\<lceil>5 * c\<rceil> < maxVoices s" and "0 \<le> c"
  shows "int (activeVoiceCount (setComplexity c s)) \<le> \<lceil>5 * c\<rceil>"
proof -
  define m where "m = \<lceil>5 * c\<rceil>"
  have nonneg: "0 \<le> m" unfolding m_def using assms(2) by (rule ceiling_nonneg)
  have off: "filter playing (map (\<lambda>v. v\<lparr>playing := False\<rparr>) xs) = []" for xs :: "voice list"
    by (induction xs) simp_all
  have "voices (setComplexity c s)
      = take (nat m) (voices s) @ map (\<lambda>v. v\<lparr>playing := False\<rparr>) (drop (nat m) (voices s))"
    unfolding m_def using assms by (rule setComplexity_shrink(1))
  then have "activeVoiceCount (setComplexity c s) = length (filter playing (take (nat m) (voices s)))"
    by (simp add: activeVoiceCount_def off)
  also have "\<dots> \<le> length (take (nat m) (voices s))"
    by (rule length_filter_le)
  also have "\<dots> \<le> nat m" by simp
  finally have "int (activeVoiceCount (setComplexity c s)) \<le> m"
    using nonneg by linarith
  then show ?thesis unfolding m_def .
qed

lemma startVoice_full_pool:
  assumes "isInitialized s" and "\<forall>v \<in> set (voices s). playing v"
    and "int (length (voices s)) = maxVoices s" and "0 < maxVoices s"
  shows "released (snd (startVoice now x y intensity s)) = released s @ [voices s ! 0]"
    and "activeVoiceCount (snd (startVoice now x y intensity s)) = length (voices s)"
proof -
  let ?v = "createVoice now (currentFrequency s x y) intensity x y"
  have none: "findIndex (\<lambda>v. \<not> playing v) (voices s) = None"
    using assms(2) by (simp add: findIndex_None)
  have ne: "voices s \<noteq> []" using assms(3,4) by auto
  have full: "\<not> int (length (voices s)) < maxVoices s" using assms(3) by simp
  note st = startVoice_steal [OF assms(1) none full ne, of now x y intensity]
  show "released (snd (startVoice now x y intensity s)) = released s @ [voices s ! 0]"
    by (simp add: st)
  have "\<forall>v \<in> set ((voices s)[0 := ?v]). playing v"
    using assms(2) ne by (auto simp: createVoice_def dest!: set_update_subset_insert [THEN subsetD])
  then have "filter playing ((voices s)[0 := ?v]) = (voices s)[0 := ?v]"
    by (simp add: filter_id_conv)
  then show "activeVoiceCount (snd (startVoice now x y intensity s)) = length (voices s)"
    by (simp add: st activeVoiceCount_def)
qed

lemma startVoice_fields:
  "isInitialized (snd (startVoice now x y intensity s)) = isInitialized s \<and>
   maxVoices (snd (startVoice now x y intensity s)) = maxVoices s"
  by (simp add: startVoice_def Let_def stopVoice_def split: option.splits)

lemma startVoice_grow:
  assumes "isInitialized s" and "\<forall>v \<in> set (voices s). playing v"
    and "int (length (voices s)) < maxVoices s"
  shows "\<forall>v \<in> set (voices (snd (startVoice now x y intensity s))). playing v"
    and "length (voices (snd (startVoice now x y intensity s))) = Suc (length (voices s))"
    and "released (snd (startVoice now x y intensity s)) = released s"
proof -
  have none: "findIndex (\<lambda>v. \<not> playing v) (voices s) = None"
    using assms(2) by (simp add: findIndex_None)
  note ap = startVoice_append [OF assms(1) none assms(3), of now x y intensity]
  show "\<forall>v \<in> set (voices (snd (startVoice now x y intensity s))). playing v"
    using assms(2) by (simp add: ap createVoice_def)
  show "length (voices (snd (startVoice now x y intensity s))) = Suc (length (voices s))"
    by (simp add: ap)
  show "released (snd (startVoice now x y intensity s)) = released s"
    by (simp add: ap)
qed

lemma all_playing_replicate:
  "\<forall>v \<in> set vs. playing v \<Longrightarrow> map playing vs = replicate (length vs) True"
  by (induction vs) simp_all

lemma full_pool_eval:
  "map playing (voices full_pool) = replicate 5 True \<and>
   maxVoices full_pool = 5 \<and> isInitialized full_pool \<and> released full_pool = [] \<and>
   length (voices full_pool) = 5"
proof -
  define s0 where "s0 = initialize True (Synthesizer_new None None)"
  define s1 where "s1 = snd (startVoice 1 0 0 1 s0)"
  define s2 where "s2 = snd (startVoice 2 0 0 1 s1)"
  define s3 where "s3 = snd (startVoice 3 0 0 1 s2)"
  define s4 where "s4 = snd (startVoice 4 0 0 1 s3)"
  define s5 where "s5 = snd (startVoice 5 0 0 1 s4)"
  have fp: "full_pool = s5"
    by (simp add: full_pool_def s5_def s4_def s3_def s2_def s1_def s0_def)
  have i0: "isInitialized s0" and m0: "maxVoices s0 = 5"
    and p0: "\<forall>v \<in> set (voices s0). playing v" and l0: "length (voices s0) = 0"
    and r0: "released s0 = []"
    by (simp_all add: s0_def initialize_def Synthesizer_new_def)
  have c0: "int (length (voices s0)) < maxVoices s0" using l0 m0 by simp
  have i1: "isInitialized s1" and m1: "maxVoices s1 = 5"
    using i0 m0 by (simp_all add: s1_def startVoice_fields)
  have p1: "\<forall>v \<in> set (voices s1). playing v" and l1: "length (voices s1) = 1"
    and r1: "released s1 = []"
    using startVoice_grow [OF i0 p0 c0, of 1 0 0 1] l0 r0 by (simp_all add: s1_def)
  have c1: "int (length (voices s1)) < maxVoices s1" using l1 m1 by simp
  have i2: "isInitialized s2" and m2: "maxVoices s2 = 5"
    using i1 m1 by (simp_all add: s2_def startVoice_fields)
  have p2: "\<forall>v \<in> set (voices s2). playing v" and l2: "length (voices s2) = 2"
    and r2: "released s2 = []"
    using startVoice_grow [OF i1 p1 c1, of 2 0 0 1] l1 r1 by (simp_all add: s2_def)
  have c2: "int (length (voices s2)) < maxVoices s2" using l2 m2 by simp
  have i3: "isInitialized s3" and m3: "maxVoices s3 = 5"
    using i2 m2 by (simp_all add: s3_def startVoice_fields)
  have p3: "\<forall>v \<in> set (voices s3). playing v" and l3: "length (voices s3) = 3"
    and r3: "released s3 = []"
    using startVoice_grow [OF i2 p2 c2, of 3 0 0 1] l2 r2 by (simp_all add: s3_def)
  have c3: "int (length (voices s3)) < maxVoices s3" using l3 m3 by simp
  have i4: "isInitialized s4" and m4: "maxVoices s4 = 5"
    using i3 m3 by (simp_all add: s4_def startVoice_fields)
  have p4: "\<forall>v \<in> set (voices s4). playing v" and l4: "length (voices s4) = 4"
    and r4: "released s4 = []"
    using startVoice_grow [OF i3 p3 c3, of 4 0 0 1] l3 r3 by (simp_all add: s4_def)
  have c4: "int (length (voices s4)) < maxVoices s4" using l4 m4 by simp
  have i5: "isInitialized s5" and m5: "maxVoices s5 = 5"
    using i4 m4 by (simp_all add: s5_def startVoice_fields)
  have p5: "\<forall>v \<in> set (voices s5). playing v" and l5: "length (voices s5) = 5"
    and r5: "released s5 = []"
    using startVoice_grow [OF i4 p4 c4, of 5 0 0 1] l4 r4 by (simp_all add: s5_def)
  have "map playing (voices s5) = replicate 5 True"
    using all_playing_replicate [OF p5] l5 by simp
  then show ?thesis
    unfolding fp using i5 m5 l5 r5 by simp
qed

lemma ceiling_two_fifths: "\<lceil>5 * (2 / 5 :: real)\<rceil> = 2"
  by simp

lemma shrunk_pool_eval:
  "map playing (voices shrunk_pool) = [True, True, False, False, False] \<and>
   maxVoices shrunk_pool = 2 \<and> isInitialized shrunk_pool \<and>
   released shrunk_pool = drop 2 (voices full_pool) \<and>
   length (voices shrunk_pool) = 5"
proof -
  have lt: "\<lceil>5 * (2 / 5 :: real)\<rceil> < maxVoices full_pool"
    using full_pool_eval unfolding ceiling_two_fifths by simp
  have pl: "map playing (voices full_pool) = replicate 5 True"
    using full_pool_eval by blast
  have v: "voices shrunk_pool
      = take 2 (voices full_pool) @ map (\<lambda>v. v\<lparr>playing := False\<rparr>) (drop 2 (voices full_pool))"
    using setComplexity_shrink(1) [OF lt] by (simp add: shrunk_pool_def)
  have len5: "length (voices full_pool) = 5"
    using full_pool_eval by blast
  have "map playing (map (\<lambda>v. v\<lparr>playing := False\<rparr>) (drop 2 (voices full_pool)))
      = replicate 3 False"
    using len5 by (simp add: comp_def map_replicate_const)
  moreover have "map playing (take 2 (voices full_pool)) = take 2 (replicate 5 True)"
    unfolding pl [symmetric] by (simp only: take_map)
  ultimately have "map playing (voices shrunk_pool)
      = take 2 (replicate 5 True) @ replicate 3 False"
    unfolding v by simp
  then have a: "map playing (voices shrunk_pool) = [True, True, False, False, False]"
    by (simp add: numeral_eq_Suc)
  have "set (map playing (voices full_pool)) \<subseteq> {True}" unfolding pl by auto
  then have "\<forall>v \<in> set (voices full_pool). playing v" by auto
  then have fl: "filter playing (drop 2 (voices full_pool)) = drop 2 (voices full_pool)"
    by (auto simp: filter_id_conv dest: in_set_dropD)
  have r: "released shrunk_pool = drop 2 (voices full_pool)"
    using setComplexity_shrink(2) [OF lt] full_pool_eval fl by (simp add: shrunk_pool_def)
  have m: "maxVoices shrunk_pool = 2"
    by (simp add: shrunk_pool_def setComplexity_maxVoices)
  have i: "isInitialized shrunk_pool"
  proof -
    have "isInitialized (fold stopVoice ks s) = isInitialized s" for ks s
      by (induction ks arbitrary: s) (simp_all add: stopVoice_fields)
    then show ?thesis
      using full_pool_eval by (simp add: shrunk_pool_def setComplexity_def Let_def)
  qed
  have "length (voices shrunk_pool) = 5"
    using full_pool_eval by (simp add: shrunk_pool_def setComplexity_length)
  then show ?thesis using a m i r by simp
qed

lemma findIndex_playing:
  "findIndex (\<lambda>v. \<not> playing v) vs = findIndex Not (map playing vs)"
  by (induction vs) simp_all

lemma playing_startVoice_shrunk_pool:
  "map playing (voices (snd (startVoice 6 0 0 1 shrunk_pool))) = [True, True, True, False, False] \<and>
   maxVoices (snd (startVoice 6 0 0 1 shrunk_pool)) = 2 \<and>
   fst (startVoice 6 0 0 1 shrunk_pool) \<noteq> None"
proof -
  have i: "isInitialized shrunk_pool" using shrunk_pool_eval by blast
  have pl: "map playing (voices shrunk_pool) = [True, True, False, False, False]"
    using shrunk_pool_eval by blast
  have fi: "findIndex (\<lambda>v. \<not> playing v) (voices shrunk_pool) = Some 2"
    unfolding findIndex_playing pl by simp
  note fs = startVoice_free_slot [OF i fi, of 6 0 0 1]
  have "map playing (voices (snd (startVoice 6 0 0 1 shrunk_pool)))
      = (map playing (voices shrunk_pool))[2 := True]"
    unfolding fs by (simp add: map_update createVoice_def)
  then have "map playing (voices (snd (startVoice 6 0 0 1 shrunk_pool)))
      = [True, True, True, False, False]"
    unfolding pl by simp
  moreover have "maxVoices (snd (startVoice 6 0 0 1 shrunk_pool)) = 2"
    using shrunk_pool_eval by (simp add: startVoice_fields)
  moreover have "fst (startVoice 6 0 0 1 shrunk_pool) \<noteq> None"
    using i by (simp add: startVoice_null)
  ultimately show ?thesis by blast
qed

lemma activeVoiceCount_map: "activeVoiceCount s = length (filter id (map playing (voices s)))"
  by (simp add: activeVoiceCount_def filter_map comp_def)

text \<open>
  C5, evaluated where the code departs from it. Five voices are started on an initialized
  synthesizer and \<open>setComplexity(0.4)\<close> lowers the maximum to 2, which releases the
  voices of the slots 2, 3 and 4 and keeps the slots. The next \<open>startVoice\<close> finds the
  free slot 2 and installs a playing voice there without comparing the index with the
  maximum: three voices are playing while the configured maximum is 2.
\<close>

theorem startVoice_exceeds_maxVoices_after_shrink:
  "isInitialized shrunk_pool \<and> maxVoices shrunk_pool = 2 \<and>
   map playing (voices shrunk_pool) = [True, True, False, False, False] \<and>
   activeVoiceCount shrunk_pool = 2 \<and>
   fst (startVoice 6 0 0 1 shrunk_pool) \<noteq> None \<and>
   map playing (voices (snd (startVoice 6 0 0 1 shrunk_pool)))
     = [True, True, True, False, False] \<and>
   maxVoices (snd (startVoice 6 0 0 1 shrunk_pool)) = 2 \<and>
   activeVoiceCount (snd (startVoice 6 0 0 1 shrunk_pool)) = 3"
  using shrunk_pool_eval playing_startVoice_shrunk_pool
  by (simp add: activeVoiceCount_map)

text \<open>
  C6, as the code has it. \<open>setComplexity(c)\<close> sets the maximum to \<open>ceil(5 c)\<close> and
  keeps every slot of the pool, so the pool keeps its length. When \<open>c\<close> is not negative
  and the new maximum is below the old one, the voices in the slots from index
  \<open>ceil(5 c)\<close> on are released, in ascending order of index, the other slots are
  untouched, and at most \<open>ceil(5 c)\<close> voices are playing right after the call. When
  the maximum does not shrink, nothing is released, and the number of playing voices is
  at most \<open>ceil(5 c)\<close> provided it was within the old maximum before the call.
\<close>

theorem setComplexity_rescales_and_releases:
  "maxVoices (setComplexity c s) = \<lceil>5 * c\<rceil> \<and>
   length (voices (setComplexity c s)) = length (voices s) \<and>
   (0 \<le> c \<and> \<lceil>5 * c\<rceil> < maxVoices s \<longrightarrow>
      voices (setComplexity c s)
        = take (nat \<lceil>5 * c\<rceil>) (voices s)
          @ map (\<lambda>v. v\<lparr>playing := False\<rparr>) (drop (nat \<lceil>5 * c\<rceil>) (voices s)) \<and>
      released (setComplexity c s)
        = released s @ filter playing (drop (nat \<lceil>5 * c\<rceil>) (voices s)) \<and>
      int (activeVoiceCount (setComplexity c s)) \<le> \<lceil>5 * c\<rceil>) \<and>
   (\<not> \<lceil>5 * c\<rceil> < maxVoices s \<longrightarrow>
      voices (setComplexity c s) = voices s \<and>
      released (setComplexity c s) = released s \<and>
      (int (activeVoiceCount s) \<le> maxVoices s \<longrightarrow>
         int (activeVoiceCount (setComplexity c s)) \<le> \<lceil>5 * c\<rceil>))"
proof -
  define m where "m = \<lceil>5 * c\<rceil>"
  have a: "maxVoices (setComplexity c s) = m"
    unfolding m_def by (rule setComplexity_maxVoices)
  have b: "length (voices (setComplexity c s)) = length (voices s)"
    by (rule setComplexity_length)
  have d: "voices (setComplexity c s)
             = take (nat m) (voices s) @ map (\<lambda>v. v\<lparr>playing := False\<rparr>) (drop (nat m) (voices s)) \<and>
           released (setComplexity c s) = released s @ filter playing (drop (nat m) (voices s)) \<and>
           int (activeVoiceCount (setComplexity c s)) \<le> m"
    if "0 \<le> c" and "m < maxVoices s"
    using that(2) setComplexity_shrink [OF _ that(1), of s]
      setComplexity_shrink_count [OF _ that(1), of s]
    unfolding m_def by blast
  have e: "voices (setComplexity c s) = voices s \<and> released (setComplexity c s) = released s"
    if "\<not> m < maxVoices s"
    using that setComplexity_keep [of c s] unfolding m_def by blast
  have f: "int (activeVoiceCount (setComplexity c s)) \<le> m"
    if "\<not> m < maxVoices s" and "int (activeVoiceCount s) \<le> maxVoices s"
  proof -
    from that have "int (activeVoiceCount s) \<le> m" by linarith
    then show ?thesis using e [OF that(1)] by (simp add: activeVoiceCount_def)
  qed
  show ?thesis
    unfolding m_def [symmetric] using a b d e f by blast
qed

theorem setComplexity_rescales_and_releases_witness:
  "(0::real) \<le> 2 / 5 \<and> \<lceil>5 * (2 / 5 :: real)\<rceil> < maxVoices full_pool \<and>
   maxVoices (setComplexity (2 / 5) full_pool) = 2 \<and>
   length (voices (setComplexity (2 / 5) full_pool)) = 5 \<and>
   released (setComplexity (2 / 5) full_pool) = drop 2 (voices full_pool) \<and>
   int (activeVoiceCount (setComplexity (2 / 5) full_pool)) \<le> 2"
proof -
  have h: "(0::real) \<le> 2 / 5" by simp
  have c: "\<lceil>5 * (2 / 5 :: real)\<rceil> = 2" by simp
  have lt: "\<lceil>5 * (2 / 5 :: real)\<rceil> < maxVoices full_pool"
    using full_pool_eval unfolding c by simp
  have len: "length (voices full_pool) = 5"
    using full_pool_eval by blast
  have "map playing (voices full_pool) = replicate 5 True"
    using full_pool_eval by blast
  then have "set (map playing (voices full_pool)) \<subseteq> {True}"
    by (simp only: set_replicate_conv_if) simp
  then have pl: "\<forall>v \<in> set (voices full_pool). playing v"
    by auto
  have fl: "filter playing (drop 2 (voices full_pool)) = drop 2 (voices full_pool)"
    using pl by (auto simp: filter_id_conv dest: in_set_dropD)
  note r = setComplexity_rescales_and_releases [of "2 / 5" full_pool]
  from r have a: "maxVoices (setComplexity (2 / 5) full_pool) = \<lceil>5 * (2 / 5 :: real)\<rceil>"
    by blast
  from r have b: "length (voices (setComplexity (2 / 5) full_pool)) = length (voices full_pool)"
    by blast
  from r h lt have d: "released (setComplexity (2 / 5) full_pool)
      = released full_pool
        @ filter playing (drop (nat \<lceil>5 * (2 / 5 :: real)\<rceil>) (voices full_pool))"
    by blast
  from r h lt have e: "int (activeVoiceCount (setComplexity (2 / 5) full_pool))
      \<le> \<lceil>5 * (2 / 5 :: real)\<rceil>"
    by blast
  have "released (setComplexity (2 / 5) full_pool) = drop 2 (voices full_pool)"
    using d full_pool_eval fl unfolding c by simp
  then show ?thesis
    using h lt a b e len unfolding c by simp
qed

text \<open>
  C6 as the claim states it fails. After five voices and \<open>setComplexity(0.4)\<close> the pool
  still has its five slots while the maximum is 2. And when a voice is then started (it
  takes the free slot 2) and \<open>setComplexity(0.4)\<close> is called again, the maximum does
  not shrink, nothing is released, and three voices are playing while \<open>ceil(5 * 0.4)\<close>
  is 2.
\<close>

theorem setComplexity_pool_size_counterexample:
  "length (voices shrunk_pool) = 5 \<and> maxVoices shrunk_pool = 2 \<and>
   \<not> int (length (voices shrunk_pool)) \<le> maxVoices shrunk_pool \<and>
   \<lceil>5 * (2 / 5 :: real)\<rceil> = 2 \<and>
   activeVoiceCount (setComplexity (2 / 5) (snd (startVoice 6 0 0 1 shrunk_pool))) = 3"
proof -
  have len: "length (voices shrunk_pool) = 5"
    using shrunk_pool_eval by blast
  have keep: "\<not> \<lceil>5 * (2 / 5 :: real)\<rceil> < maxVoices (snd (startVoice 6 0 0 1 shrunk_pool))"
    using playing_startVoice_shrunk_pool by simp
  have "activeVoiceCount (setComplexity (2 / 5) (snd (startVoice 6 0 0 1 shrunk_pool)))
      = activeVoiceCount (snd (startVoice 6 0 0 1 shrunk_pool))"
    using setComplexity_keep [OF keep] by (simp add: activeVoiceCount_def)
  also have "\<dots> = 3"
    using playing_startVoice_shrunk_pool by (simp add: activeVoiceCount_map)
  finally show ?thesis
    using len shrunk_pool_eval by simp
qed

section \<open>Properties of the loop controller\<close>

lemma loop_run_snoc: "loop_run (ops @ [op]) s = loop_apply op (loop_run ops s)"
  by (simp add: loop_run_def)

lemma stopPlayback_maxLoopDuration: "maxLoopDuration (snd (stopPlayback s)) = maxLoopDuration s"
  by (simp add: stopPlayback_def)

lemma startPlaybackAtPosition_maxLoopDuration:
  "maxLoopDuration (snd (startPlaybackAtPosition position now s)) = maxLoopDuration s"
  by (simp add: startPlaybackAtPosition_def Let_def)

lemma recorder_stop_maxLoopDuration: "maxLoopDuration (recorder_stop s) = maxLoopDuration s"
  by (simp add: recorder_stop_def split: option.splits)

lemma stopRecording_maxLoopDuration:
  "maxLoopDuration (snd (stopRecording now s)) = maxLoopDuration s"
  by (simp add: stopRecording_def Let_def recorder_stop_maxLoopDuration)

lemma processOverdubRecording_maxLoopDuration:
  "maxLoopDuration (processOverdubRecording decoded now1 now2 s) = maxLoopDuration s"
  by (simp add: processOverdubRecording_def Let_def startPlaybackAtPosition_maxLoopDuration
      stopPlayback_maxLoopDuration split: option.splits sum.splits)

lemma processRecording_maxLoopDuration:
  "maxLoopDuration (processRecording decoded now s) = maxLoopDuration s"
  by (simp add: processRecording_def startPlayback_def startPlaybackAtPosition_maxLoopDuration
      split: option.splits)

lemma clear_maxLoopDuration: "maxLoopDuration (snd (clear now s)) = maxLoopDuration s"
  by (simp add: clear_def Let_def stopRecording_maxLoopDuration stopPlayback_maxLoopDuration
      recorder_stop_maxLoopDuration split: option.splits)

lemma loop_apply_maxLoopDuration: "maxLoopDuration (loop_apply op s) = maxLoopDuration s"
proof (cases op)
  case (Initialize synthReady ok)
  then show ?thesis by (simp add: loop_initialize_def)
next
  case (StartRecording now ok)
  then show ?thesis by (simp add: startRecording_def Let_def)
next
  case (StopRecording now)
  then show ?thesis by (simp add: stopRecording_maxLoopDuration)
next
  case (TogglePlayback now)
  then show ?thesis
    by (simp add: togglePlayback_def startPlayback_def stopPlayback_maxLoopDuration
        startPlaybackAtPosition_maxLoopDuration)
next
  case (SetVolume v)
  then show ?thesis by (simp add: setVolume_def)
next
  case (Clear now)
  then show ?thesis by (simp add: clear_maxLoopDuration)
next
  case (DataAvailable blobSize)
  then show ?thesis by (simp add: dataAvailable_def)
next
  case (DeliverStop decoded now1 now2)
  then show ?thesis
    by (simp add: deliverStop_def processRecording_maxLoopDuration
        processOverdubRecording_maxLoopDuration split: list.splits take_kind.splits)
qed

lemma loop_run_maxLoopDuration:
  "maxLoopDuration (loop_run ops (LoopController_new rate)) = 30"
proof (induction ops rule: rev_induct)
  case Nil
  show ?case by (simp add: loop_run_def LoopController_new_def)
next
  case (snoc op ops)
  then show ?case by (simp add: loop_run_snoc loop_apply_maxLoopDuration)
qed

lemma stopRecording_new_duration:
  "isRecording s \<Longrightarrow> recordedBuffer s = None \<Longrightarrow> 0.1 \<le> maxLoopDuration s \<Longrightarrow>
   loopDuration (snd (stopRecording now s))
     = max 0.1 (min (maxLoopDuration s) (now - recordStartTime s))"
  by (auto simp: stopRecording_def Let_def recorder_stop_def split: option.splits)

lemma stopRecording_overdub_duration:
  "recordedBuffer s \<noteq> None \<Longrightarrow> loopDuration (snd (stopRecording now s)) = loopDuration s"
  by (auto simp: stopRecording_def Let_def recorder_stop_def split: option.splits)

lemma playback_inv_stopPlayback:
  "(isPlaying s \<longrightarrow> playbackSource s \<noteq> None) \<Longrightarrow> \<not> isPlaying (snd (stopPlayback s))"
  by (auto simp: stopPlayback_def)

lemma playback_inv_startPlaybackAtPosition:
  "\<not> isPlaying s \<Longrightarrow>
   isPlaying (snd (startPlaybackAtPosition position now s)) \<longrightarrow>
   playbackSource (snd (startPlaybackAtPosition position now s)) \<noteq> None"
  by (simp add: startPlaybackAtPosition_def Let_def)

lemma recorder_stop_playback:
  "isPlaying (recorder_stop s) = isPlaying s \<and> playbackSource (recorder_stop s) = playbackSource s"
  by (simp add: recorder_stop_def split: option.splits)

lemma stopRecording_playback:
  "isPlaying (snd (stopRecording now s)) = isPlaying s \<and>
   playbackSource (snd (stopRecording now s)) = playbackSource s"
  by (simp add: stopRecording_def Let_def recorder_stop_playback)

lemma playback_inv_processRecording:
  assumes "isPlaying s \<longrightarrow> playbackSource s \<noteq> None"
  shows "isPlaying (processRecording decoded now s) \<longrightarrow>
         playbackSource (processRecording decoded now s) \<noteq> None"
  using assms
  by (auto simp: processRecording_def startPlayback_def startPlaybackAtPosition_def Let_def
      split: option.splits)

lemma playback_inv_processOverdubRecording:
  assumes "isPlaying s \<longrightarrow> playbackSource s \<noteq> None"
  shows "isPlaying (processOverdubRecording decoded now1 now2 s) \<longrightarrow>
         playbackSource (processOverdubRecording decoded now1 now2 s) \<noteq> None"
proof (cases "recordedChunks s = []")
  case True
  then show ?thesis using assms by (simp add: processOverdubRecording_def)
next
  case False
  let ?s1 = "snd (stopPlayback s)"
  have np: "\<not> isPlaying ?s1"
    using assms by (rule playback_inv_stopPlayback)
  have st: "\<not> isPlaying (?s1\<lparr>recordedBuffer := Some b\<rparr>)" for b
    using np by simp
  show ?thesis
    using False np playback_inv_startPlaybackAtPosition [OF st]
    by (simp add: processOverdubRecording_def Let_def split: option.splits sum.splits)
qed

lemma stopRecording_not_recording: "\<not> isRecording (snd (stopRecording now s))"
  by (simp add: stopRecording_def Let_def recorder_stop_def split: option.splits)

lemma stopRecording_volume: "volume (snd (stopRecording now s)) = volume s"
  by (simp add: stopRecording_def Let_def recorder_stop_def split: option.splits)

lemma stopPlayback_other:
  "isRecording (snd (stopPlayback s)) = isRecording s \<and> volume (snd (stopPlayback s)) = volume s"
  by (simp add: stopPlayback_def)

lemma clear_tail:
  assumes "\<not> isRecording s2" and "\<not> isPlaying s2"
  shows "(let s3 = s2\<lparr>recordedBuffer := None, loopDuration := 0, recordedChunks := []\<rparr>;
              s4 = (case mediaRecorder s3 of
                      None \<Rightarrow> s3
                    | Some r \<Rightarrow> (recorder_stop s3)\<lparr>mediaRecorder := None\<rparr>);
              s5 = (if recordDestination s4 then s4\<lparr>recordDestination := False\<rparr> else s4);
              s6 = (if overdubDestination s5 then s5\<lparr>overdubDestination := False\<rparr> else s5)
          in \<not> isRecording s6 \<and> \<not> isPlaying s6 \<and> recordedBuffer s6 = None \<and>
             loopDuration s6 = 0 \<and> recordedChunks s6 = [] \<and> mediaRecorder s6 = None \<and>
             \<not> recordDestination s6 \<and> \<not> overdubDestination s6 \<and> volume s6 = volume s2)"
  using assms by (simp add: Let_def recorder_stop_def split: option.splits)

lemma clear_fields:
  assumes "isPlaying s \<longrightarrow> playbackSource s \<noteq> None"
  shows "\<not> isRecording (snd (clear now s)) \<and> \<not> isPlaying (snd (clear now s)) \<and>
         recordedBuffer (snd (clear now s)) = None \<and> loopDuration (snd (clear now s)) = 0 \<and>
         recordedChunks (snd (clear now s)) = [] \<and> mediaRecorder (snd (clear now s)) = None \<and>
         \<not> recordDestination (snd (clear now s)) \<and> \<not> overdubDestination (snd (clear now s)) \<and>
         volume (snd (clear now s)) = volume s \<and> fst (clear now s) = True"
proof -
  define s1 where "s1 = (if isRecording s then snd (stopRecording now s) else s)"
  define s2 where "s2 = (if isPlaying s1 then snd (stopPlayback s1) else s1)"
  have r1: "\<not> isRecording s1"
    unfolding s1_def by (simp add: stopRecording_not_recording)
  have p1: "isPlaying s1 \<longrightarrow> playbackSource s1 \<noteq> None"
    unfolding s1_def using assms by (simp add: stopRecording_playback)
  have v1: "volume s1 = volume s"
    unfolding s1_def by (simp add: stopRecording_volume)
  have p2: "\<not> isPlaying s2"
    unfolding s2_def using playback_inv_stopPlayback [OF p1] by simp
  have r2: "\<not> isRecording s2"
    unfolding s2_def using r1 by (simp add: stopPlayback_other)
  have v2: "volume s2 = volume s"
    unfolding s2_def using v1 by (simp add: stopPlayback_other)
  have unfold: "clear now s =
     (let s3 = s2\<lparr>recordedBuffer := None, loopDuration := 0, recordedChunks := []\<rparr>;
          s4 = (case mediaRecorder s3 of
                  None \<Rightarrow> s3
                | Some r \<Rightarrow> (recorder_stop s3)\<lparr>mediaRecorder := None\<rparr>);
          s5 = (if recordDestination s4 then s4\<lparr>recordDestination := False\<rparr> else s4);
          s6 = (if overdubDestination s5 then s5\<lparr>overdubDestination := False\<rparr> else s5)
      in (True, s6))"
    unfolding s2_def s1_def by (simp only: clear_def Let_def)
  show ?thesis
    using clear_tail [OF r2 p2] v2 unfolding unfold by (simp add: Let_def)
qed

lemma clear_fixed:
  "\<not> isRecording s \<Longrightarrow> \<not> isPlaying s \<Longrightarrow> recordedBuffer s = None \<Longrightarrow> loopDuration s = 0 \<Longrightarrow>
   recordedChunks s = [] \<Longrightarrow> mediaRecorder s = None \<Longrightarrow> \<not> recordDestination s \<Longrightarrow>
   \<not> overdubDestination s \<Longrightarrow> clear now s = (True, s)"
  by (cases s) (simp add: clear_def)

lemma loop_apply_playback_inv:
  assumes "isPlaying s \<longrightarrow> playbackSource s \<noteq> None"
  shows "isPlaying (loop_apply op s) \<longrightarrow> playbackSource (loop_apply op s) \<noteq> None"
proof (cases op)
  case (Initialize synthReady ok)
  then show ?thesis using assms by (simp add: loop_initialize_def)
next
  case (StartRecording now ok)
  then show ?thesis using assms by (simp add: startRecording_def Let_def)
next
  case (StopRecording now)
  then show ?thesis using assms by (simp add: stopRecording_playback)
next
  case (TogglePlayback now)
  then show ?thesis
    using assms
    by (auto simp: togglePlayback_def startPlayback_def stopPlayback_def
        startPlaybackAtPosition_def Let_def)
next
  case (SetVolume v)
  then show ?thesis using assms by (simp add: setVolume_def)
next
  case (Clear now)
  then show ?thesis using clear_fields [OF assms, of now] by simp
next
  case (DataAvailable blobSize)
  then show ?thesis using assms by (simp add: dataAvailable_def)
next
  case (DeliverStop decoded now1 now2)
  show ?thesis
  proof (cases "pendingStops s")
    case Nil
    then show ?thesis using DeliverStop assms by (simp add: deliverStop_def)
  next
    case (Cons k rest)
    have inv': "isPlaying (s\<lparr>pendingStops := rest\<rparr>) \<longrightarrow>
                playbackSource (s\<lparr>pendingStops := rest\<rparr>) \<noteq> None"
      using assms by simp
    show ?thesis
      using DeliverStop Cons playback_inv_processRecording [OF inv', of decoded now2]
        playback_inv_processOverdubRecording [OF inv', of decoded now1 now2]
      by (cases k) (simp_all add: deliverStop_def)
  qed
qed

lemma loop_run_playback_inv:
  "isPlaying (loop_run ops (LoopController_new rate)) \<longrightarrow>
   playbackSource (loop_run ops (LoopController_new rate)) \<noteq> None"
proof (induction ops rule: rev_induct)
  case Nil
  show ?case by (simp add: loop_run_def LoopController_new_def)
next
  case (snoc op ops)
  from loop_apply_playback_inv [OF snoc.IH, of op] show ?case
    by (simp add: loop_run_snoc)
qed

lemma loop_apply_buffer_inv:
  assumes "isPlaying s \<longrightarrow> playbackSource s \<noteq> None"
    and "isPlaying s \<longrightarrow> recordedBuffer s \<noteq> None"
    and "overdub_in_progress s \<longrightarrow> recordedBuffer s \<noteq> None"
  shows "(isPlaying (loop_apply op s) \<longrightarrow> recordedBuffer (loop_apply op s) \<noteq> None) \<and>
         (overdub_in_progress (loop_apply op s) \<longrightarrow> recordedBuffer (loop_apply op s) \<noteq> None)"
proof (cases op)
  case (Initialize synthReady ok)
  then show ?thesis using assms by (simp add: loop_initialize_def overdub_in_progress_def)
next
  case (StartRecording now ok)
  then show ?thesis
    using assms by (auto simp: startRecording_def Let_def overdub_in_progress_def split: option.splits)
next
  case (StopRecording now)
  then show ?thesis
    using assms
    by (auto simp: stopRecording_def Let_def recorder_stop_def overdub_in_progress_def
        split: option.splits)
next
  case (TogglePlayback now)
  then show ?thesis
    using assms
    by (auto simp: togglePlayback_def startPlayback_def stopPlayback_def
        startPlaybackAtPosition_def Let_def overdub_in_progress_def split: option.splits)
next
  case (SetVolume v)
  then show ?thesis using assms by (simp add: setVolume_def overdub_in_progress_def)
next
  case (Clear now)
  then show ?thesis
    using clear_fields [OF assms(1), of now] by (simp add: overdub_in_progress_def)
next
  case (DataAvailable blobSize)
  then show ?thesis using assms by (simp add: dataAvailable_def overdub_in_progress_def)
next
  case (DeliverStop decoded now1 now2)
  then show ?thesis
    using assms
    by (auto simp: deliverStop_def processRecording_def processOverdubRecording_def
        startPlayback_def stopPlayback_def startPlaybackAtPosition_def Let_def
        overdub_in_progress_def
        split: list.splits take_kind.splits option.splits sum.splits)
qed

lemma loop_run_buffer_inv:
  "(isPlaying (loop_run ops (LoopController_new rate)) \<longrightarrow>
      recordedBuffer (loop_run ops (LoopController_new rate)) \<noteq> None) \<and>
   (overdub_in_progress (loop_run ops (LoopController_new rate)) \<longrightarrow>
      recordedBuffer (loop_run ops (LoopController_new rate)) \<noteq> None)"
proof (induction ops rule: rev_induct)
  case Nil
  show ?case by (simp add: loop_run_def LoopController_new_def overdub_in_progress_def)
next
  case (snoc op ops)
  from snoc have a: "isPlaying (loop_run ops (LoopController_new rate)) \<longrightarrow>
      recordedBuffer (loop_run ops (LoopController_new rate)) \<noteq> None"
    and b: "overdub_in_progress (loop_run ops (LoopController_new rate)) \<longrightarrow>
      recordedBuffer (loop_run ops (LoopController_new rate)) \<noteq> None"
    by blast+
  from loop_apply_buffer_inv [OF loop_run_playback_inv a b, of op] show ?case
    by (simp add: loop_run_snoc)
qed

text \<open>
  C4. When \<open>stopRecording()\<close> ends a recording while no loop buffer exists, it commits
  \<open>loopDuration = clamp(elapsed, 0.1, maxLoopDuration)\<close>, where \<open>elapsed\<close> is the clock
  minus \<open>recordStartTime\<close>: an elapsed time below 0.1 commits 0.1, one above
  \<open>maxLoopDuration\<close> commits \<open>maxLoopDuration\<close>, and 5.0 commits 5.0 under the default
  maximum. \<open>maxLoopDuration\<close> is 30 after the constructor and after every sequence of
  operations. When a loop buffer exists, \<open>stopRecording()\<close> leaves \<open>loopDuration\<close> as
  it is; and whenever, after a sequence of operations, an overdub recording is running
  (the recorder in use was created by \<open>startOverdubRecording\<close>), a loop buffer exists,
  so ending an overdub never recomputes the duration.
\<close>

theorem stopRecording_commits_clamped_duration:
  assumes "isRecording s"
  shows "fst (stopRecording now s) = True \<and>
         \<not> isRecording (snd (stopRecording now s)) \<and>
         (recordedBuffer s = None \<and> 1 / 10 \<le> maxLoopDuration s \<longrightarrow>
            loopDuration (snd (stopRecording now s))
              = max (1 / 10) (min (maxLoopDuration s) (now - recordStartTime s)) \<and>
            (now - recordStartTime s < 1 / 10 \<longrightarrow>
               loopDuration (snd (stopRecording now s)) = 1 / 10) \<and>
            (maxLoopDuration s < now - recordStartTime s \<longrightarrow>
               loopDuration (snd (stopRecording now s)) = maxLoopDuration s) \<and>
            (now - recordStartTime s = 5 \<and> maxLoopDuration s = 30 \<longrightarrow>
               loopDuration (snd (stopRecording now s)) = 5)) \<and>
         (recordedBuffer s \<noteq> None \<longrightarrow>
            loopDuration (snd (stopRecording now s)) = loopDuration s) \<and>
         maxLoopDuration (loop_run ops (LoopController_new rate)) = 30 \<and>
         (overdub_in_progress (loop_run ops (LoopController_new rate)) \<longrightarrow>
            loopDuration (snd (stopRecording now' (loop_run ops (LoopController_new rate))))
              = loopDuration (loop_run ops (LoopController_new rate)))"
proof -
  have a: "fst (stopRecording now s) = True \<and> \<not> isRecording (snd (stopRecording now s))"
    using assms
    by (simp add: stopRecording_def Let_def recorder_stop_def split: option.splits)
  have b: "loopDuration (snd (stopRecording now s))
             = max (1 / 10) (min (maxLoopDuration s) (now - recordStartTime s))"
    if "recordedBuffer s = None" and "1 / 10 \<le> maxLoopDuration s"
    using stopRecording_new_duration [OF assms that(1), of now] that(2) by simp
  have c: "loopDuration (snd (stopRecording now s)) = loopDuration s"
    if "recordedBuffer s \<noteq> None"
    using that by (rule stopRecording_overdub_duration)
  have d: "loopDuration (snd (stopRecording now' (loop_run ops (LoopController_new rate))))
              = loopDuration (loop_run ops (LoopController_new rate))"
    if "overdub_in_progress (loop_run ops (LoopController_new rate))"
    using that loop_run_buffer_inv [of ops rate]
    by (intro stopRecording_overdub_duration) blast
  show ?thesis
    using a b c d loop_run_maxLoopDuration [of ops rate] by auto
qed

theorem stopRecording_commits_clamped_duration_witness:
  "isRecording (loop_run [Initialize True True, StartRecording 10 True] (LoopController_new 44100)) \<and>
   recordedBuffer (loop_run [Initialize True True, StartRecording 10 True] (LoopController_new 44100))
     = None \<and>
   loopDuration (snd (stopRecording 15
     (loop_run [Initialize True True, StartRecording 10 True] (LoopController_new 44100)))) = 5 \<and>
   loopDuration (snd (stopRecording (1001 / 100)
     (loop_run [Initialize True True, StartRecording 10 True] (LoopController_new 44100)))) = 1 / 10 \<and>
   loopDuration (snd (stopRecording 50
     (loop_run [Initialize True True, StartRecording 10 True] (LoopController_new 44100)))) = 30 \<and>
   overdub_in_progress
     (loop_run [Initialize True True, StartRecording 10 True, StopRecording 15, DataAvailable 100,
                DeliverStop (Some [[0, 0]]) 15 16, StartRecording 20 True]
        (LoopController_new 44100)) \<and>
   loopDuration (snd (stopRecording 100
     (loop_run [Initialize True True, StartRecording 10 True, StopRecording 15, DataAvailable 100,
                DeliverStop (Some [[0, 0]]) 15 16, StartRecording 20 True]
        (LoopController_new 44100)))) = 5"
proof -
  let ?s = "loop_run [Initialize True True, StartRecording 10 True] (LoopController_new 44100)"
  let ?ops = "[Initialize True True, StartRecording 10 True, StopRecording 15, DataAvailable 100,
               DeliverStop (Some [[0, 0]]) 15 16, StartRecording 20 True]"
  have s: "?s = (LoopController_new 44100)
      \<lparr>loopInitialized := True, recordDestination := True, recordedChunks := [],
       mediaRecorder := Some \<lparr>recState = Recording, onstop = NewTake\<rparr>,
       isRecording := True, recordStartTime := 10\<rparr>"
    by (simp add: loop_run_def loop_initialize_def startRecording_def LoopController_new_def)
  have h1: "isRecording ?s" unfolding s by simp
  have h2: "1 / 10 \<le> maxLoopDuration ?s" unfolding s by (simp add: LoopController_new_def)
  have nb: "recordedBuffer ?s = None" unfolding s by (simp add: LoopController_new_def)
  have mx: "maxLoopDuration ?s = 30" unfolding s by (simp add: LoopController_new_def)
  have st: "recordStartTime ?s = 10" unfolding s by simp
  have od: "overdub_in_progress (loop_run ?ops (LoopController_new 44100)) \<and>
      loopDuration (loop_run ?ops (LoopController_new 44100)) = 5"
    by (simp add: loop_run_def loop_initialize_def startRecording_def stopRecording_def
        recorder_stop_def dataAvailable_def deliverStop_def processRecording_def
        startPlayback_def startPlaybackAtPosition_def LoopController_new_def
        overdub_in_progress_def Let_def)
  have "loopDuration (snd (stopRecording 15 ?s)) = 5"
    using stopRecording_commits_clamped_duration [OF h1, of 15] h2 nb mx st by simp
  moreover have "loopDuration (snd (stopRecording (1001 / 100) ?s)) = 1 / 10"
    using stopRecording_commits_clamped_duration [OF h1, of "1001 / 100"] h2 nb mx st by simp
  moreover have "loopDuration (snd (stopRecording 50 ?s)) = 30"
    using stopRecording_commits_clamped_duration [OF h1, of 50] h2 nb mx st by simp
  moreover have "loopDuration (snd (stopRecording 100 (loop_run ?ops (LoopController_new 44100)))) = 5"
    using stopRecording_commits_clamped_duration
        [OF h1, where ops = ?ops and rate = 44100 and now' = 100] od
    by simp
  ultimately show ?thesis using h1 nb od by blast
qed

text \<open>
  C8. After every sequence of operations on a new loop controller (method calls and
  recorder events, in any order), \<open>clear()\<close> returns \<open>true\<close> and \<open>getState()\<close> then
  reports \<open>isRecording: false\<close>, \<open>isPlaying: false\<close>, \<open>hasLoop: false\<close> and
  \<open>duration: 0\<close>, with the volume as it was; a second \<open>clear()\<close> returns \<open>true\<close> and
  changes nothing. The state meant is the one when \<open>clear()\<close> returns.
\<close>

theorem clear_resets_and_is_idempotent:
  "fst (clear now (loop_run ops (LoopController_new rate))) = True \<and>
   getState (snd (clear now (loop_run ops (LoopController_new rate))))
     = \<lparr> st_isRecording = False, st_isPlaying = False, st_hasLoop = False, st_duration = 0,
         st_volume = volume (loop_run ops (LoopController_new rate)) \<rparr> \<and>
   recordedBuffer (snd (clear now (loop_run ops (LoopController_new rate)))) = None \<and>
   clear now' (snd (clear now (loop_run ops (LoopController_new rate))))
     = (True, snd (clear now (loop_run ops (LoopController_new rate))))"
proof -
  let ?s = "loop_run ops (LoopController_new rate)"
  note f = clear_fields [OF loop_run_playback_inv [of ops rate], of now]
  have "clear now' (snd (clear now ?s)) = (True, snd (clear now ?s))"
    using f by (intro clear_fixed) simp_all
  then show ?thesis using f by (simp add: getState_def)
qed

section \<open>Properties of the overdub mixing\<close>

lemma js_irem_nonneg: "0 \<le> a \<Longrightarrow> 0 < b \<Longrightarrow> js_irem a b = a mod b"
  by (cases "a = 0") (simp_all add: js_irem_def)

lemma js_rem_nonneg: "0 \<le> a \<Longrightarrow> 0 < b \<Longrightarrow> js_rem a b = spec_mod a b"
  by (simp add: js_rem_def spec_mod_def js_trunc_def)

lemma spec_mod_nonneg: "0 < b \<Longrightarrow> 0 \<le> spec_mod a b"
proof -
  assume b: "0 < b"
  have "of_int \<lfloor>a / b\<rfloor> \<le> a / b" by (rule of_int_floor_le)
  then have "b * of_int \<lfloor>a / b\<rfloor> \<le> b * (a / b)"
    using b by (simp only: mult_le_cancel_left_pos)
  also have "b * (a / b) = a" using b by simp
  finally show ?thesis by (simp add: spec_mod_def)
qed

lemma length_copy_original: "length (copy_original originalData n md) = length md"
proof -
  have "length (fold (\<lambda>i md. md[i := originalData ! i]) ks md) = length md" for ks
    by (induction ks arbitrary: md) simp_all
  then show ?thesis by (simp add: copy_original_def)
qed

lemma length_overdub_step: "length (overdub_step start n od i md) = length md"
  by (simp add: overdub_step_def Let_def split: option.splits)

lemma length_layer_overdub: "length (layer_overdub start n od md) = length md"
proof -
  have "length (fold (overdub_step start n od) ks md) = length md" for ks
    by (induction ks arbitrary: md) (simp_all add: length_overdub_step)
  then show ?thesis by (simp add: layer_overdub_def)
qed

lemma length_mix_channel: "length (mix_channel start n orig od ch md) = length md"
  by (simp add: mix_channel_def Let_def length_layer_overdub length_copy_original)

lemma mixOverdub_shape:
  assumes "0 < \<lfloor>duration * rate\<rfloor>" and "0 < max (length orig) (length od)"
  shows "\<exists>b. mixOverdub rate duration overdubStart playStart orig od = Inr b \<and>
             length b = max (length orig) (length od) \<and>
             (\<forall>c \<in> set b. length c = nat \<lfloor>duration * rate\<rfloor>)"
proof -
  define n where "n = \<lfloor>duration * rate\<rfloor>"
  define k where "k = max (length orig) (length od)"
  have "0 < k" and "0 < n" using assms by (simp_all only: k_def n_def)
  then have cb: "createBuffer k n = Inr (replicate k (replicate (nat n) 0))"
    by (simp add: createBuffer_def)
  show ?thesis
    unfolding mixOverdub_def Let_def n_def [symmetric] k_def [symmetric] cb
    by (auto simp: length_mix_channel)
qed

lemma fold_copy:
  "k \<le> length md \<Longrightarrow> k \<le> length orig \<Longrightarrow>
   fold (\<lambda>i md. md[i := orig ! i]) [0..<k] md = take k orig @ drop k md"
proof (induction k)
  case 0
  then show ?case by simp
next
  case (Suc k)
  then have "fold (\<lambda>i md. md[i := orig ! i]) [0..<Suc k] md
      = (take k orig @ drop k md)[k := orig ! k]"
    by simp
  also have "\<dots> = take k orig @ (drop k md)[0 := orig ! k]"
    using Suc.prems by (simp add: list_update_append)
  also have "(drop k md)[0 := orig ! k] = orig ! k # drop (Suc k) md"
    using Suc.prems by (simp add: Cons_nth_drop_Suc [symmetric])
  also have "take k orig @ orig ! k # drop (Suc k) md = take (Suc k) orig @ drop (Suc k) md"
    using Suc.prems by (simp add: take_Suc_conv_app_nth)
  finally show ?case .
qed

lemma copy_original_zero:
  "0 \<le> n \<Longrightarrow> copy_original orig n (replicate (nat n) 0) = spec_copy (nat n) orig"
proof -
  assume "0 \<le> n"
  let ?k = "min (length orig) (nat n)"
  have "copy_original orig n (replicate (nat n) 0) = take ?k orig @ drop ?k (replicate (nat n) 0)"
    unfolding copy_original_def by (rule fold_copy) simp_all
  also have "\<dots> = take (nat n) orig @ replicate (nat n - length orig) 0"
    by (cases "length orig \<le> nat n") (simp_all add: min_def)
  finally show ?thesis by (simp add: spec_copy_def)
qed

lemma overdub_step_spec:
  assumes "0 \<le> start" and "0 < n" and "length md = nat n"
  shows "overdub_step (Some start) n od i md
           = md[(nat start + i) mod nat n :=
                clamp11 (md ! ((nat start + i) mod nat n) + 0.6 * od ! i)]"
proof -
  have nn: "0 \<le> start + int i" using assms(1) by simp
  have ir: "js_irem (start + int i) n = (start + int i) mod n"
    using nn assms(2) by (rule js_irem_nonneg)
  have lo: "0 \<le> (start + int i) mod n" and hi: "(start + int i) mod n < n"
    using assms(2) by simp_all
  have "nat ((start + int i) mod n) = nat (start + int i) mod nat n"
    using nn assms(2) by (simp add: nat_mod_distrib)
  also have "nat (start + int i) = nat start + i"
    using assms(1) by (simp add: nat_add_distrib)
  finally have idx: "nat ((start + int i) mod n) = (nat start + i) mod nat n" .
  have lm: "int (length md) = n" using assms(2,3) by simp
  define t where "t = js_irem (start + int i) n"
  have t: "0 \<le> t \<and> t < int (length md)" and nt: "nat t = (nat start + i) mod nat n"
    unfolding t_def ir lm using lo hi idx by simp_all
  have "overdub_step (Some start) n od i md
      = md[nat t := clamp11 (md ! nat t + od ! i * 0.6)]"
    using t unfolding t_def by (simp add: overdub_step_def Let_def)
  then show ?thesis
    unfolding nt by (simp add: mult.commute)
qed

lemma fold_overdub_spec:
  assumes "0 \<le> start" and "0 < n"
  shows "length md = nat n \<Longrightarrow>
         fold (overdub_step (Some start) n (pre @ xs)) [length pre..<length pre + length xs] md
           = spec_layer (nat start) (nat n) (length pre) xs md"
proof (induction xs arbitrary: pre md)
  case Nil
  then show ?case by simp
next
  case (Cons x xs)
  let ?md = "md[(nat start + length pre) mod nat n :=
               clamp11 (md ! ((nat start + length pre) mod nat n) + 0.6 * x)]"
  have "length pre < length pre + length (x # xs)" by simp
  from upt_conv_Cons [OF this]
  have up: "[length pre..<length pre + length (x # xs)]
      = length pre # [length (pre @ [x])..<length (pre @ [x]) + length xs]"
    by simp
  have st: "overdub_step (Some start) n (pre @ x # xs) (length pre) md = ?md"
    using overdub_step_spec [OF assms Cons.prems, of "pre @ x # xs" "length pre"] by simp
  have len: "length ?md = nat n" using Cons.prems by simp
  have "fold (overdub_step (Some start) n (pre @ x # xs))
          [length pre..<length pre + length (x # xs)] md
      = fold (overdub_step (Some start) n ((pre @ [x]) @ xs))
          [length (pre @ [x])..<length (pre @ [x]) + length xs] ?md"
    unfolding up by (simp add: st)
  also have "\<dots> = spec_layer (nat start) (nat n) (length (pre @ [x])) xs ?md"
    using len by (rule Cons.IH)
  finally show ?case by simp
qed

lemma layer_overdub_spec:
  assumes "0 \<le> start" and "0 < n" and "length md = nat n"
  shows "layer_overdub (Some start) n od md = spec_layer (nat start) (nat n) 0 od md"
  using fold_overdub_spec [OF assms(1,2,3), of "[]" od] by (simp add: layer_overdub_def)

lemma layer_overdub_Nil: "layer_overdub start n [] md = md"
  by (simp add: layer_overdub_def)

lemma copy_original_Nil: "copy_original [] n md = md"
  by (simp add: copy_original_def)

lemma mix_channel_spec:
  assumes "0 \<le> start" and "0 < n"
  shows "mix_channel (Some start) n orig od ch (replicate (nat n) 0)
           = spec_layer (nat start) (nat n) 0 (spec_channel od ch)
               (spec_copy (nat n) (spec_channel orig ch))"
proof -
  have n0: "0 \<le> n" using assms(2) by simp
  have z: "spec_copy (nat n) [] = replicate (nat n) 0"
    by (simp add: spec_copy_def)
  have len: "length (spec_copy (nat n) c) = nat n" for c
    by (simp add: spec_copy_def)
  show ?thesis
    unfolding mix_channel_def Let_def spec_channel_def
    using layer_overdub_spec [OF assms len]
      layer_overdub_spec [OF assms, of "replicate (nat n) 0"]
    by (simp add: copy_original_zero [OF n0] z layer_overdub_Nil)
qed

lemma mixOverdub_spec_mix:
  assumes "0 < \<lfloor>duration * rate\<rfloor>" and "0 < duration" and "playStart \<le> overdubStart"
    and "0 < max (length orig) (length od)"
  shows "mixOverdub rate duration (Some overdubStart) playStart orig od
           = Inr (spec_mix rate duration overdubStart playStart orig od)"
proof -
  define n where "n = \<lfloor>duration * rate\<rfloor>"
  define k where "k = max (length orig) (length od)"
  define ph where "ph = spec_mod (overdubStart - playStart) duration"
  define start where "start = \<lfloor>ph * rate\<rfloor>"
  have npos: "0 < n" using assms(1) by (simp add: n_def)
  have "0 < duration * rate"
  proof (rule ccontr)
    assume "\<not> 0 < duration * rate"
    then have "\<lfloor>duration * rate\<rfloor> \<le> 0" by (simp add: floor_le_iff)
    with assms(1) show False by simp
  qed
  then have rpos: "0 < rate" using assms(2) by (simp add: zero_less_mult_iff)
  have "0 \<le> ph" unfolding ph_def using assms(2) by (rule spec_mod_nonneg)
  then have "0 \<le> ph * rate" using rpos by simp
  then have spos: "0 \<le> start" by (simp add: start_def)
  have rem: "js_rem (overdubStart - playStart) duration = ph"
    unfolding ph_def using assms(2,3) by (intro js_rem_nonneg) simp_all
  have kpos: "0 < k" using assms(4) by (simp only: k_def)
  have cb: "createBuffer k n = Inr (replicate k (replicate (nat n) 0))"
    using npos kpos by (simp add: createBuffer_def)
  have st: "overdubStartSample rate duration (Some overdubStart) playStart = Some start"
    by (simp add: overdubStartSample_def rem start_def)
  have "mixOverdub rate duration (Some overdubStart) playStart orig od
      = Inr (map (\<lambda>ch. mix_channel (Some start) n orig od ch (replicate (nat n) 0)) [0..<k])"
    unfolding mixOverdub_def Let_def n_def [symmetric] k_def [symmetric] cb st by simp
  also have "map (\<lambda>ch. mix_channel (Some start) n orig od ch (replicate (nat n) 0)) [0..<k]
      = spec_mix rate duration overdubStart playStart orig od"
    unfolding spec_mix_def Let_def n_def [symmetric] k_def [symmetric] ph_def [symmetric]
      start_def [symmetric]
    by (simp add: mix_channel_spec [OF spos npos])
  finally show ?thesis .
qed

text \<open>
  C1, as the code has it. When the loop holds at least one sample, the duration is
  positive, the overdub started at or after the start of playback and one of the two
  buffers has a channel, \<open>mixOverdub\<close> returns the buffer that the specification's
  algorithm yields with the sample count \<open>floor(loopDuration * sampleRate)\<close>: it has
  \<open>max(existing.channels, overdub.channels)\<close> channels, each of that many samples; the
  existing loop is copied into it (as far as it reaches, the rest staying 0); then every
  sample \<open>i\<close> of the overdub, in order, sets
  \<open>result[(overdubStartSample + i) mod targetSamples]\<close> to
  \<open>clamp(-1, 1, previous + 0.6 * overdub[i])\<close>, where \<open>overdubStartSample\<close> is
  \<open>floor(phase * sampleRate)\<close> and the phase is
  \<open>(overdubStartTime - playStartTime) mod loopDuration\<close>.
\<close>

theorem mixOverdub_follows_contract:
  assumes "0 < \<lfloor>duration * rate\<rfloor>" and "0 < duration" and "playStart \<le> overdubStart"
    and "0 < max (length orig) (length od)"
  shows "mixOverdub rate duration (Some overdubStart) playStart orig od
           = Inr (spec_mix rate duration overdubStart playStart orig od) \<and>
         length (spec_mix rate duration overdubStart playStart orig od)
           = max (length orig) (length od) \<and>
         (\<forall>c \<in> set (spec_mix rate duration overdubStart playStart orig od).
            length c = nat \<lfloor>duration * rate\<rfloor>)"
proof -
  note eq = mixOverdub_spec_mix [OF assms]
  from mixOverdub_shape [OF assms(1,4), of "Some overdubStart" playStart]
  show ?thesis unfolding eq by simp
qed

theorem mixOverdub_follows_contract_witness:
  "(0::int) < \<lfloor>1 / 10 * 40 :: real\<rfloor> \<and> (0::real) < 1 / 10 \<and> (0::real) \<le> 11 / 40 \<and>
   0 < max (length [[1 / 10, 1 / 5, 3 / 10, 2 / 5 :: real]]) (length [[2, 1, - 2], [1 :: real]]) \<and>
   mixOverdub 40 (1 / 10) (Some (11 / 40)) 0 [[1 / 10, 1 / 5, 3 / 10, 2 / 5]] [[2, 1, - 2], [1]]
     = Inr [[7 / 10, - 1, 3 / 10, 1], [0, 0, 0, 3 / 5]]"
proof -
  have h1: "(0::int) < \<lfloor>1 / 10 * 40 :: real\<rfloor>" by simp
  have h2: "(0::real) < 1 / 10" by simp
  have h3: "(0::real) \<le> 11 / 40" by simp
  have h4: "0 < max (length [[1 / 10, 1 / 5, 3 / 10, 2 / 5 :: real]])
                    (length [[2, 1, - 2], [1 :: real]])" by simp
  have ph: "spec_mod (11 / 40 - 0) (1 / 10) = 3 / 40"
    by (simp add: spec_mod_def)
  have st: "nat \<lfloor>(3 / 40 :: real) * 40\<rfloor> = 3" and nn: "nat \<lfloor>(1 / 10 :: real) * 40\<rfloor> = 4"
    by simp_all
  have c0: "spec_copy 4 [1 / 10, 1 / 5, 3 / 10, 2 / 5] = [1 / 10, 1 / 5, 3 / 10, 2 / 5]"
    by (simp add: spec_copy_def)
  have c1: "spec_copy 4 [] = [0, 0, 0, 0]"
    by (simp add: spec_copy_def numeral_eq_Suc)
  have l0: "spec_layer 3 4 0 [2, 1, - 2] [1 / 10, 1 / 5, 3 / 10, 2 / 5] = [7 / 10, - 1, 3 / 10, 1]"
    by (simp add: clamp11_def)
  have l1: "spec_layer 3 4 0 [1] [0, 0, 0, 0] = [0, 0, 0, 3 / 5]"
    by (simp add: clamp11_def)
  have ch: "[0..<max (length [[1 / 10, 1 / 5, 3 / 10, 2 / 5 :: real]])
                     (length [[2, 1, - 2], [1 :: real]])] = [0, 1]"
    by (simp add: upt_conv_Cons)
  have sm: "spec_mix 40 (1 / 10) (11 / 40) 0 [[1 / 10, 1 / 5, 3 / 10, 2 / 5]] [[2, 1, - 2], [1]]
      = [[7 / 10, - 1, 3 / 10, 1], [0, 0, 0, 3 / 5]]"
    unfolding spec_mix_def Let_def ph st nn ch
    by (simp add: spec_channel_def c0 c1 l0 l1 clamp11_def)
  from mixOverdub_follows_contract [OF h1 h2 h3 h4]
  have "mixOverdub 40 (1 / 10) (Some (11 / 40)) 0 [[1 / 10, 1 / 5, 3 / 10, 2 / 5]] [[2, 1, - 2], [1]]
      = Inr (spec_mix 40 (1 / 10) (11 / 40) 0 [[1 / 10, 1 / 5, 3 / 10, 2 / 5]] [[2, 1, - 2], [1]])"
    by blast
  then show ?thesis
    unfolding sm using h1 h2 h3 h4 by blast
qed

text \<open>
  C1 as the claim states it fails on the sample count: for a loop of 7/16 seconds at
  44100 samples per second the mixed buffer has \<open>floor(19293.75) = 19293\<close> samples, and
  rounding gives 19294.
\<close>

theorem mixOverdub_sample_count_counterexample:
  "\<not> isl (mixOverdub 44100 (7 / 16) (Some 0) 0 [[0]] [[0]]) \<and>
   map length (projr (mixOverdub 44100 (7 / 16) (Some 0) 0 [[0]] [[0]])) = [19293] \<and>
   round (7 / 16 * 44100 :: real) = 19294"
proof -
  have n: "\<lfloor>7 / 16 * 44100 :: real\<rfloor> = 19293" by simp
  have h1: "0 < \<lfloor>7 / 16 * 44100 :: real\<rfloor>" unfolding n by simp
  have h2: "0 < max (length [[0 :: real]]) (length [[0 :: real]])" by simp
  from mixOverdub_shape [OF h1 h2, of "Some 0" 0]
  obtain b where b: "mixOverdub 44100 (7 / 16) (Some 0) 0 [[0]] [[0]] = Inr b"
    and len: "length b = 1" and each: "\<forall>c \<in> set b. length c = 19293"
    unfolding n by auto
  from len obtain c where c: "b = [c]"
    by (cases b) simp_all
  have "map length b = [19293]" using each unfolding c by simp
  moreover have "round (7 / 16 * 44100 :: real) = 19294" by (simp add: round_def)
  ultimately show ?thesis by (simp add: b)
qed

lemma mod_shift_neq: "0 < d \<Longrightarrow> d < n \<Longrightarrow> (a + d) mod n \<noteq> a mod (n::nat)"
proof
  assume d: "0 < d" "d < n" and eq: "(a + d) mod n = a mod n"
  have "a \<le> a + d" by simp
  from mod_eq_dvd_iff_nat [OF this, of n] eq have "n dvd d" by simp
  then have "n \<le> d" using d(1) by (rule dvd_imp_le)
  with d(2) show False by simp
qed

lemma mod_shift_surj: "j < n \<Longrightarrow> \<exists>t<n. (a + t) mod n = (j::nat)"
proof -
  assume j: "j < n"
  define r where "r = a mod n"
  have r: "r < n" unfolding r_def using j by simp
  define t where "t = (j + (n - r)) mod n"
  have "t < n" unfolding t_def using j by simp
  moreover have "(a + t) mod n = j"
  proof -
    have "(a + t) mod n = (a + (j + (n - r))) mod n"
      unfolding t_def by (rule mod_add_right_eq)
    also have "\<dots> = (r + (j + (n - r))) mod n"
      unfolding r_def by (rule mod_add_left_eq [symmetric])
    also have "r + (j + (n - r)) = j + n" using r by simp
    also have "(j + n) mod n = j" using j by simp
    finally show ?thesis .
  qed
  ultimately show ?thesis by blast
qed

lemma length_spec_layer: "length (spec_layer st n i xs r) = length r"
  by (induction xs arbitrary: i r) simp_all

lemma spec_layer_append:
  "spec_layer st n i (xs @ ys) r = spec_layer st n (i + length xs) ys (spec_layer st n i xs r)"
  by (induction xs arbitrary: i r) simp_all

lemma spec_layer_const:
  "k \<le> n \<Longrightarrow> length r = n \<Longrightarrow> j < n \<Longrightarrow>
   spec_layer st n i (replicate k s) r ! j
     = (if \<exists>t<k. (st + i + t) mod n = j then clamp11 (r ! j + 0.6 * s) else r ! j)"
proof (induction k arbitrary: i r)
  case 0
  then show ?case by simp
next
  case (Suc k)
  define p where "p = (st + i) mod n"
  define r' where "r' = r[p := clamp11 (r ! p + 0.6 * s)]"
  have len: "length r' = n" using Suc.prems by (simp add: r'_def)
  have kn: "k \<le> n" using Suc.prems by simp
  have step: "spec_layer st n i (replicate (Suc k) s) r = spec_layer st n (Suc i) (replicate k s) r'"
    by (simp add: r'_def p_def)
  note ih = Suc.IH [OF kn len Suc.prems(3), of "Suc i"]
  have pn: "p < n" unfolding p_def using Suc.prems by simp
  show ?case
  proof (cases "j = p")
    case True
    have "\<not> (\<exists>t<k. (st + Suc i + t) mod n = j)"
    proof
      assume "\<exists>t<k. (st + Suc i + t) mod n = j"
      then obtain t where t: "t < k" and e: "(st + Suc i + t) mod n = j" by blast
      have "0 < Suc t" "Suc t < n" using t Suc.prems by simp_all
      from mod_shift_neq [OF this, of "st + i"] e True show False
        by (simp add: p_def)
    qed
    moreover have "\<exists>t<Suc k. (st + i + t) mod n = j"
      using True by (auto simp: p_def intro: exI [of _ 0])
    moreover have "r' ! j = clamp11 (r ! j + 0.6 * s)"
      using True pn Suc.prems by (simp add: r'_def)
    ultimately show ?thesis unfolding step ih by auto
  next
    case False
    have "(\<exists>t<Suc k. (st + i + t) mod n = j) \<longleftrightarrow> (\<exists>t<k. (st + Suc i + t) mod n = j)"
    proof
      assume "\<exists>t<Suc k. (st + i + t) mod n = j"
      then obtain t where t: "t < Suc k" and e: "(st + i + t) mod n = j" by blast
      have "t \<noteq> 0"
      proof
        assume "t = 0"
        with e have "j = p" by (simp add: p_def)
        with False show False by simp
      qed
      then obtain u where u: "t = Suc u" by (cases t) simp_all
      with t e show "\<exists>t<k. (st + Suc i + t) mod n = j" by auto
    next
      assume "\<exists>t<k. (st + Suc i + t) mod n = j"
      then obtain t where t: "t < k" and e: "(st + Suc i + t) mod n = j" by blast
      then have "Suc t < Suc k" "(st + i + Suc t) mod n = j" by simp_all
      then show "\<exists>t<Suc k. (st + i + t) mod n = j" by blast
    qed
    moreover have "r' ! j = r ! j" using False by (simp add: r'_def)
    ultimately show ?thesis unfolding step ih by auto
  qed
qed

lemma spec_layer_pass:
  assumes "length r = n"
  shows "spec_layer st n i (replicate n s) r = map (\<lambda>v. clamp11 (v + 0.6 * s)) r"
proof (rule nth_equalityI)
  show "length (spec_layer st n i (replicate n s) r) = length (map (\<lambda>v. clamp11 (v + 0.6 * s)) r)"
    by (simp add: length_spec_layer)
next
  fix j assume "j < length (spec_layer st n i (replicate n s) r)"
  then have j: "j < n" using assms by (simp add: length_spec_layer)
  from mod_shift_surj [OF j, of "st + i"] have "\<exists>t<n. (st + i + t) mod n = j" .
  then show "spec_layer st n i (replicate n s) r ! j = map (\<lambda>v. clamp11 (v + 0.6 * s)) r ! j"
    using spec_layer_const [OF le_refl assms j, of st i s] j assms by simp
qed

lemma spec_layer_two_passes:
  assumes "length r = n"
  shows "spec_layer st n 0 (replicate (2 * n) s) r
           = map (\<lambda>v. clamp11 (clamp11 (v + 0.6 * s) + 0.6 * s)) r"
proof -
  have "replicate (2 * n) s = replicate n s @ replicate n s"
    by (simp add: replicate_add [symmetric] mult_2)
  then have "spec_layer st n 0 (replicate (2 * n) s) r
      = spec_layer st n n (replicate n s) (spec_layer st n 0 (replicate n s) r)"
    by (simp add: spec_layer_append)
  also have "\<dots> = map (\<lambda>v. clamp11 (v + 0.6 * s)) (map (\<lambda>v. clamp11 (v + 0.6 * s)) r)"
    using assms by (simp add: spec_layer_pass)
  finally show ?thesis by (simp add: comp_def)
qed

lemma double_clamp: "clamp11 (clamp11 (0 + 0.6 * s) + 0.6 * s) = clamp11 (1.2 * s)"
  by (auto simp: clamp11_def min_def max_def)

lemma clamp_coincide: "clamp11 (1.2 * s) = clamp11 (0.6 * s) \<longleftrightarrow> s = 0 \<or> 5 / 3 \<le> \<bar>s\<bar>"
  by (auto simp: clamp11_def min_def max_def)

lemma spec_copy_zero: "set c \<subseteq> {0} \<Longrightarrow> spec_copy n c = replicate n 0"
proof -
  assume "set c \<subseteq> {0}"
  then have "c = replicate (length c) 0"
    by (induction c) simp_all
  then have "take n c = replicate (min (length c) n) 0"
    by (metis take_replicate min.commute)
  then show ?thesis
    by (simp add: spec_copy_def replicate_add [symmetric] min_def)
qed

lemma mixOverdub_double_pass:
  assumes "\<lfloor>duration * rate\<rfloor> = int n" and "0 < n" and "0 < duration"
    and "playStart \<le> overdubStart" and "\<forall>c \<in> set orig. set c \<subseteq> {0}"
    and "0 < k"
  shows "mixOverdub rate duration (Some overdubStart) playStart orig
           (replicate k (replicate (2 * n) s))
         = Inr (replicate k (replicate n (clamp11 (1.2 * s)))
                @ replicate (length orig - k) (replicate n 0))"
proof -
  let ?od = "replicate k (replicate (2 * n) s)"
  define m where "m = length orig - k"
  have h1: "0 < \<lfloor>duration * rate\<rfloor>" using assms(1,2) by simp
  have mx: "max (length orig) (length ?od) = k + m" by (simp add: m_def)
  have h4: "0 < max (length orig) (length ?od)" unfolding mx using assms(6) by simp
  have nn: "nat \<lfloor>duration * rate\<rfloor> = n" using assms(1) by simp
  have zero: "spec_copy n (spec_channel orig ch) = replicate n 0" for ch
  proof (rule spec_copy_zero)
    show "set (spec_channel orig ch) \<subseteq> {0}"
      using assms(5) by (auto simp: spec_channel_def)
  qed
  have chan: "spec_layer st n 0 (spec_channel ?od ch) (spec_copy n (spec_channel orig ch))
      = replicate n (clamp11 (1.2 * s))" if "ch < k" for ch st
  proof -
    have "spec_channel ?od ch = replicate (2 * n) s"
      using that by (simp add: spec_channel_def)
    then show ?thesis
      unfolding zero
      by (simp add: spec_layer_two_passes double_clamp [simplified])
  qed
  have rest: "spec_layer st n 0 (spec_channel ?od ch) (spec_copy n (spec_channel orig ch))
      = replicate n 0" if "k \<le> ch" for ch st
  proof -
    have "spec_channel ?od ch = []"
      using that by (simp add: spec_channel_def)
    then show ?thesis unfolding zero by simp
  qed
  have split: "[0..<k + m] = [0..<k] @ [k..<k + m]"
    by (rule upt_add_eq_append) simp
  have "spec_mix rate duration overdubStart playStart orig ?od
      = map (\<lambda>ch. replicate n (clamp11 (1.2 * s))) [0..<k]
        @ map (\<lambda>ch. replicate n 0) [k..<k + m]"
    unfolding spec_mix_def Let_def mx nn split map_append
  proof (intro arg_cong2 [of _ _ _ _ "(@)"] map_cong refl)
    fix ch assume "ch \<in> set [0..<k]"
    then show "spec_layer (nat \<lfloor>spec_mod (overdubStart - playStart) duration * rate\<rfloor>) n 0
        (spec_channel ?od ch) (spec_copy n (spec_channel orig ch))
        = replicate n (clamp11 (1.2 * s))"
      by (simp add: chan)
  next
    fix ch assume "ch \<in> set [k..<k + m]"
    then show "spec_layer (nat \<lfloor>spec_mod (overdubStart - playStart) duration * rate\<rfloor>) n 0
        (spec_channel ?od ch) (spec_copy n (spec_channel orig ch))
        = replicate n 0"
      by (simp add: rest)
  qed
  also have "\<dots> = replicate k (replicate n (clamp11 (1.2 * s))) @ replicate m (replicate n 0)"
    by (simp add: map_replicate_const)
  finally show ?thesis
    using mixOverdub_spec_mix [OF h1 assms(3,4) h4] by (simp add: m_def)
qed

lemma clamp11_explicit: "clamp11 v = max (- 1) (min 1 v)"
  by (simp add: clamp11_def)

text \<open>
  An overdub that began before playback was last started has a negative phase, for the
  remainder \<open>%\<close> takes the sign of the dividend. The start sample is then negative, the
  writes at negative indexes are lost, and the clip of twice the loop's length no longer
  reaches every sample twice: here the second sample is written once.
\<close>

lemma mixOverdub_overdub_before_playback:
  "mixOverdub 1 2 (Some 0) 1 [[0, 0]] [[1 / 2, 1 / 2, 1 / 2, 1 / 2]] = Inr [[3 / 5, 3 / 10]]"
proof -
  have c: "\<lceil>- (1 / 2) :: real\<rceil> = 0" by (rule ceiling_unique) simp_all
  have r: "js_rem (- 1) 2 = - 1" by (simp add: js_rem_def js_trunc_def c)
  have f: "\<lfloor>- 1 :: real\<rfloor> = - 1" by (rule floor_unique) simp_all
  have st: "overdubStartSample 1 2 (Some 0) 1 = Some (- 1)"
    by (simp add: overdubStartSample_def r f)
  have cb: "createBuffer (max (length [[0, 0 :: real]]) (length [[1 / 2, 1 / 2, 1 / 2, 1 / 2 :: real]]))
      \<lfloor>2 * 1 :: real\<rfloor> = Inr [[0, 0]]"
    by (simp add: createBuffer_def numeral_eq_Suc)
  have up: "[0..<4] = [0, 1, 2, 3]" "[0..<2] = [0, 1]" by (simp_all add: upt_rec)
  have i: "js_irem (- 1) 2 = - 1" "js_irem 0 2 = 0" "js_irem 1 2 = 1" "js_irem 2 2 = 0"
    by (simp_all add: js_irem_def)
  have ch: "mix_channel (Some (- 1)) 2 [[0, 0]] [[1 / 2, 1 / 2, 1 / 2, 1 / 2]] 0 [0, 0]
      = [3 / 5, 3 / 10]"
    by (simp add: mix_channel_def copy_original_def layer_overdub_def overdub_step_def up i
        clamp11_def Let_def)
  show ?thesis
    unfolding mixOverdub_def Let_def cb st by (simp add: ch)
qed

text \<open>
  C3, as the code has it. Let the loop hold \<open>n = floor(loopDuration * sampleRate)\<close>
  samples, at least one, let the duration be positive and let the overdub have begun
  at or after the start of playback. An overdub clip of \<open>k\<close> channels, at least one, each
  of \<open>2 n\<close> samples of the constant signal \<open>s\<close>, mixed onto a loop of zeros, covers the
  first \<open>k\<close> channels fully and writes every sample there twice; the second write adds to
  the result of the first, so every such sample ends as
  \<open>clamp(-1, 1, clamp(-1, 1, 0.6 s) + 0.6 s)\<close>, which is \<open>clamp(-1, 1, 1.2 s)\<close>, that is
  \<open>max(-1, min(1, 1.2 s))\<close>. The channels that the loop has beyond those of the clip
  stay zero. The value is the claim's \<open>clamp(-1, 1, 0.6 s)\<close> only for \<open>s = 0\<close> and for
  signals of magnitude 5/3 or more.
\<close>

theorem overdub_wraparound_accumulates:
  assumes "\<lfloor>duration * rate\<rfloor> = int n" and "0 < n" and "0 < duration"
    and "playStart \<le> overdubStart" and "\<forall>c \<in> set orig. set c \<subseteq> {0}"
    and "0 < k"
  shows "mixOverdub rate duration (Some overdubStart) playStart orig
           (replicate k (replicate (2 * n) s))
         = Inr (replicate k (replicate n (clamp11 (clamp11 (0.6 * s) + 0.6 * s)))
                @ replicate (length orig - k) (replicate n 0)) \<and>
         clamp11 (clamp11 (0.6 * s) + 0.6 * s) = clamp11 (1.2 * s) \<and>
         clamp11 (1.2 * s) = max (- 1) (min 1 (1.2 * s)) \<and>
         clamp11 (0.6 * s) = max (- 1) (min 1 (0.6 * s)) \<and>
         (clamp11 (1.2 * s) = clamp11 (0.6 * s) \<longleftrightarrow> s = 0 \<or> 5 / 3 \<le> \<bar>s\<bar>)"
  using mixOverdub_double_pass [OF assms, of s] double_clamp [of s] clamp_coincide [of s]
    clamp11_explicit [of "1.2 * s"] clamp11_explicit [of "0.6 * s"]
  by simp

theorem overdub_wraparound_accumulates_witness:
  "\<lfloor>1 / 10 * 40 :: real\<rfloor> = int 4 \<and> 0 < (4::nat) \<and> (0::real) < 1 / 10 \<and> (0::real) \<le> 11 / 40 \<and>
   set [0, 0, 0, 0 :: real] \<subseteq> {0} \<and> 0 < (1::nat) \<and>
   mixOverdub 40 (1 / 10) (Some (11 / 40)) 0 [[0, 0, 0, 0], [0, 0, 0, 0]]
       [[1 / 2, 1 / 2, 1 / 2, 1 / 2, 1 / 2, 1 / 2, 1 / 2, 1 / 2]]
     = Inr [[3 / 5, 3 / 5, 3 / 5, 3 / 5], [0, 0, 0, 0]]"
proof -
  have h1: "\<lfloor>1 / 10 * 40 :: real\<rfloor> = int 4" by simp
  have h2: "0 < (4::nat)" and h3: "(0::real) < 1 / 10" and h4: "(0::real) \<le> 11 / 40" by simp_all
  have h5: "\<forall>c \<in> set [[0, 0, 0, 0 :: real], [0, 0, 0, 0]]. set c \<subseteq> {0}" by simp
  have h6: "0 < (1::nat)" by simp
  from overdub_wraparound_accumulates [OF h1 h2 h3 h4 h5 h6, of "1 / 2"]
  have "mixOverdub 40 (1 / 10) (Some (11 / 40)) 0 [[0, 0, 0, 0], [0, 0, 0, 0]]
       [[1 / 2, 1 / 2, 1 / 2, 1 / 2, 1 / 2, 1 / 2, 1 / 2, 1 / 2]]
     = Inr [[3 / 5, 3 / 5, 3 / 5, 3 / 5], [0, 0, 0, 0]]"
    by (simp add: numeral_eq_Suc clamp11_def)
  moreover have "set [0, 0, 0, 0 :: real] \<subseteq> {0}" by simp
  ultimately show ?thesis using h1 h2 h3 h4 h6 by blast
qed

text \<open>
  C3 as the claim states it fails for the signal \<open>s = 1\<close>: on a loop of 0.1 seconds at
  44100 samples per second (4410 samples of 0) an overdub of 8820 samples of 1 leaves
  every sample at 1, while \<open>clamp(-1, 1, 0.6 * 1)\<close> is 0.6.
\<close>

theorem overdub_wraparound_counterexample:
  "mixOverdub 44100 (1 / 10) (Some 0) 0 [replicate 4410 0] [replicate 8820 1]
     = Inr [replicate 4410 1] \<and>
   [replicate 4410 (1::real)] \<noteq> [replicate 4410 (clamp11 (0.6 * 1))]"
proof -
  have h1: "\<lfloor>1 / 10 * 44100 :: real\<rfloor> = int 4410" by simp
  have h2: "0 < (4410::nat)" and h3: "(0::real) < 1 / 10" and h4: "(0::real) \<le> 0" by simp_all
  have h5: "\<forall>c \<in> set [replicate 4410 (0 :: real)]. set c \<subseteq> {0}" by simp
  have h6: "0 < (1::nat)" by simp
  have c: "clamp11 (1.2 * 1) = 1" "clamp11 (0.6 * 1) = 3 / 5" by (simp_all add: clamp11_def)
  have e: "2 * (4410::nat) = 8820" by simp
  from mixOverdub_double_pass [OF h1 h2 h3 h4 h5 h6, of 1]
  have "mixOverdub 44100 (1 / 10) (Some 0) 0 [replicate 4410 0] [replicate 8820 1]
     = Inr [replicate 4410 1]"
    unfolding c e by simp
  moreover have "[replicate 4410 (1::real)] \<noteq> [replicate 4410 (clamp11 (0.6 * 1))]"
    unfolding c by simp
  ultimately show ?thesis by blast
qed

end
